theory Spec2Isabelle
  imports Complex_Main
begin

section \<open>Vintage cohorts from capacity statistics (heuristics.py)\<close>

text \<open>
  The development embeds \<^verbatim>\<open>derive_vintage_cohorts_from_statistics\<close> and its four
  nested helpers. Years are Python integers (\<open>int\<close>). Capacities are Python floats;
  the model computes with exact rationals, so rounding is not modelled, and a float
  \<^verbatim>\<open>NaN\<close> (an unassigned matrix cell) is \<open>None\<close>.
\<close>

subsection \<open>Exceptions\<close>

text \<open>
  The exception classes the function can raise, all of them implicitly: a dictionary
  or label lookup (\<^verbatim>\<open>KeyError\<close>, carrying the missing key), a position in an empty
  index (\<^verbatim>\<open>IndexError\<close>), the float division by a zero lifetime, and the
  \<^verbatim>\<open>TypeError\<close> of \<^verbatim>\<open>np.isclose\<close> on a column that is not numeric. The last
  constructor is the error class of the specification; no statement of the source
  raises it.
\<close>

datatype key = KStr string | KInt int

datatype py_error =
    KeyError key
  | IndexError
  | ZeroDivisionError
  | TypeError
  | ConfigurationError string

subsection \<open>The cohort matrix\<close>

text \<open>
  A float \<^verbatim>\<open>DataFrame\<close>: the row labels (vintage years) in the order of
  \<^verbatim>\<open>mat.index\<close>, the column labels (observation years) in the order of
  \<^verbatim>\<open>mat.columns\<close>, and the cells.
\<close>

record mat =
  index :: "int list"
  columns :: "int list"
  cells :: "int \<Rightarrow> int \<Rightarrow> rat option"

text \<open>\<^verbatim>\<open>pd.DataFrame(columns=..., index=...).astype(np.float)\<close>: every cell is NaN.\<close>

definition new_mat :: "int list \<Rightarrow> int list \<Rightarrow> mat" where
  "new_mat cols idx = \<lparr>index = idx, columns = cols, cells = (\<lambda>r c. None)\<rparr>"

text \<open>
  \<^verbatim>\<open>mat.loc[y, a:b] = v\<close>. The column slice is by label on an increasing index, so it
  selects the columns \<open>c\<close> with \<open>a \<le> c \<le> b\<close>, whether or not \<open>a\<close> and \<open>b\<close> are
  columns themselves. A row label that is not in the index is appended to it (setting
  with enlargement), its other cells NaN.
\<close>

definition loc_set :: "mat \<Rightarrow> int \<Rightarrow> int \<Rightarrow> int \<Rightarrow> rat \<Rightarrow> mat" where
  "loc_set m y a b v =
     m\<lparr>index := (if y \<in> set (index m) then index m else index m @ [y]),
       cells := (cells m)(y := (\<lambda>c.
          if c \<in> set (columns m) \<and> a \<le> c \<and> c \<le> b then Some v
          else if y \<in> set (index m) then cells m y c else None))\<rparr>"

text \<open>The value a cell adds to a sum: pandas skips NaN.\<close>

definition cell_val :: "rat option \<Rightarrow> rat" where
  "cell_val x = (case x of None \<Rightarrow> 0 | Some v \<Rightarrow> v)"

text \<open>\<^verbatim>\<open>mat.loc[:, c].sum()\<close> for a column \<open>c\<close> of the matrix.\<close>

definition col_sum :: "mat \<Rightarrow> int \<Rightarrow> rat" where
  "col_sum m c = sum_list (map (\<lambda>r. cell_val (cells m r c)) (index m))"

subsection \<open>The statistics of one partition\<close>

text \<open>
  \<^verbatim>\<open>dfs\<close> after \<^verbatim>\<open>set_index('Year')\<close>: the rows (Year, Capacity) in row order. Years are
  unique within a partition, so \<^verbatim>\<open>df.loc[year].Capacity\<close> is a scalar.
\<close>

type_synonym stats = "(int \<times> rat) list"

definition index_max :: "stats \<Rightarrow> int" where
  "index_max df = Max (set (map fst df))"

subsection \<open>The initial distribution\<close>

text \<open>
  The loop \<^verbatim>\<open>for y in range(int(mat.index[0]), y_start+1)\<close> of both policies. The
  flat policy writes one constant, the triangle policy \<^verbatim>\<open>dic[y]\<close>; the loop takes
  the value as a lookup, which for the flat policy always succeeds.
\<close>

fun setInitial_rows :: "int list \<Rightarrow> mat \<Rightarrow> int \<Rightarrow> (int \<rightharpoonup> rat) \<Rightarrow> py_error + mat" where
  "setInitial_rows [] m life dic = Inr m"
| "setInitial_rows (y # ys) m life dic =
     (if columns m = [] then Inl IndexError
      else (case dic y of
              None \<Rightarrow> Inl (KeyError (KInt y))
            | Some v \<Rightarrow>
                setInitial_rows ys
                  (loc_set m y y (min (y + life - 1) (last (columns m))) v) life dic))"

definition setInitial_Flat :: "mat \<Rightarrow> stats \<Rightarrow> int \<Rightarrow> py_error + mat" where
  "setInitial_Flat m df life =
     (case df of
        [] \<Rightarrow> Inl IndexError
      | (y_start, cap) # _ \<Rightarrow>
          if life = 0 then Inl ZeroDivisionError
          else (let height_flat = cap / of_int life in
                case index m of
                  [] \<Rightarrow> Inl IndexError
                | i0 # _ \<Rightarrow> setInitial_rows [i0..y_start] m life (\<lambda>y. Some height_flat)))"

text \<open>
  \<^verbatim>\<open>series = [(height_tri - i*decr) for i in range(0, life)][::-1]\<close> and
  \<^verbatim>\<open>dic = dict(zip(years, series))\<close>; the years are distinct, so the first match of
  \<open>map_of\<close> is the dictionary's entry.
\<close>

definition triangle_height :: "rat \<Rightarrow> int \<Rightarrow> int \<Rightarrow> rat" where
  "triangle_height cap life i =
     (let height_flat = cap / of_int life;
          decr = 2 * height_flat / of_int life;
          height_tri = 2 * height_flat - decr / 2
      in height_tri - of_int i * decr)"

definition triangle_series :: "rat \<Rightarrow> int \<Rightarrow> rat list" where
  "triangle_series cap life = rev (map (triangle_height cap life) [0..life - 1])"

definition triangle_dic :: "int \<Rightarrow> rat \<Rightarrow> int \<Rightarrow> (int \<rightharpoonup> rat)" where
  "triangle_dic y_start cap life =
     map_of (zip [y_start - life + 1..y_start] (triangle_series cap life))"

definition setInitial_Triangle :: "mat \<Rightarrow> stats \<Rightarrow> int \<Rightarrow> py_error + mat" where
  "setInitial_Triangle m df life =
     (case df of
        [] \<Rightarrow> Inl IndexError
      | (y_start, cap) # _ \<Rightarrow>
          if life = 0 then Inl ZeroDivisionError
          else (case index m of
                  [] \<Rightarrow> Inl IndexError
                | i0 # _ \<Rightarrow>
                    setInitial_rows [i0..y_start] m life (triangle_dic y_start cap life)))"

subsection \<open>Forced retirement\<close>

text \<open>
  \<^verbatim>\<open>reduceVintages\<close>: the loop over \<^verbatim>\<open>mat.index\<close>. \<^verbatim>\<open>mat.loc[year, y_pres]\<close> raises
  KeyError when \<open>y_pres\<close> is not a column; a NaN cell fails the test
  \<^verbatim>\<open>val_rem > 0\<close>. The \<^verbatim>\<open>break\<close> is the branch without a recursive call.
\<close>

fun reduce_rows :: "int list \<Rightarrow> rat \<Rightarrow> mat \<Rightarrow> int \<Rightarrow> int \<Rightarrow> py_error + mat" where
  "reduce_rows [] addition m life y_pres = Inr m"
| "reduce_rows (year # ys) addition m life y_pres =
     (if y_pres \<notin> set (columns m) then Inl (KeyError (KInt y_pres))
      else (case cells m year y_pres of
              None \<Rightarrow> reduce_rows ys addition m life y_pres
            | Some val_rem \<Rightarrow>
                if val_rem > 0 then
                  (if \<bar>addition\<bar> > val_rem then
                     reduce_rows ys (addition + val_rem)
                       (loc_set m year y_pres (year + life - 1) 0) life y_pres
                   else Inr (loc_set m year y_pres (year + life - 1) (val_rem + addition)))
                else reduce_rows ys addition m life y_pres))"

definition reduceVintages :: "rat \<Rightarrow> mat \<Rightarrow> int \<Rightarrow> int \<Rightarrow> py_error + mat" where
  "reduceVintages addition m life y_pres = reduce_rows (index m) addition m life y_pres"

subsection \<open>The allocator\<close>

text \<open>The body of the \<^verbatim>\<open>while\<close> loop of \<^verbatim>\<open>setHistorical\<close> for one year.\<close>

definition setHistorical_year :: "mat \<Rightarrow> stats \<Rightarrow> int \<Rightarrow> int \<Rightarrow> py_error + mat" where
  "setHistorical_year m df life year =
     (case map_of df year of
        Some cap \<Rightarrow>
          if year \<notin> set (columns m) then Inl (KeyError (KInt year))
          else (let addition = cap - col_sum m year in
                if addition \<ge> 0 then Inr (loc_set m year year (year + life - 1) addition)
                else reduceVintages addition
                       (loc_set m year year (year + life - 1) 0) life year)
      | None \<Rightarrow> Inr (loc_set m year year (year + life - 1) 0))"

text \<open>
  \<^verbatim>\<open>while year <= df.index.max(): ...; year += 1\<close>, with the bound as a parameter so
  that the state after any year of the loop can be named.
\<close>

function setHistorical_while :: "mat \<Rightarrow> stats \<Rightarrow> int \<Rightarrow> int \<Rightarrow> int \<Rightarrow> py_error + mat" where
  "setHistorical_while m df life year ymax =
     (if year \<le> ymax then
        (case setHistorical_year m df life year of
           Inl e \<Rightarrow> Inl e
         | Inr m' \<Rightarrow> setHistorical_while m' df life (year + 1) ymax)
      else Inr m)"
  by pat_completeness auto
termination
  by (relation "measure (\<lambda>(m, df, life, year, ymax). nat (ymax + 1 - year))") auto

declare setHistorical_while.simps [simp del]

text \<open>\<^verbatim>\<open>year = df.index[1]\<close> raises IndexError on a partition of one row.\<close>

definition setHistorical :: "mat \<Rightarrow> stats \<Rightarrow> int \<Rightarrow> py_error + mat" where
  "setHistorical m df life =
     (case df of
        _ # (year1, _) # _ \<Rightarrow> setHistorical_while m df life year1 (index_max df)
      | _ \<Rightarrow> Inl IndexError)"

subsection \<open>One partition\<close>

record partition =
  country :: string
  technology :: string
  fueltype :: string
  pset :: string
  stats :: stats

text \<open>
  \<open>fueltype\<close> and \<open>pset\<close> are \<^verbatim>\<open>dfs.Fueltype.iloc[0]\<close> and \<^verbatim>\<open>dfs.Set.iloc[0]\<close>.
  The lifetime table \<^verbatim>\<open>fueltype_to_life()\<close> is configuration outside this file and
  is a parameter: a dictionary from fuel type to a number of years.
\<close>

definition is_triangle :: "string \<Rightarrow> bool" where
  "is_triangle f = (f \<in> set [''Solar'', ''Wind'', ''Bioenergy'', ''Geothermal''])"

text \<open>The matrix of a partition and its initial distribution, for a lifetime already looked up.\<close>

definition init_matrix :: "string \<Rightarrow> stats \<Rightarrow> int \<Rightarrow> py_error + mat" where
  "init_matrix fuel dfs life =
     (case dfs of
        [] \<Rightarrow> Inl IndexError
      | (y_start, _) # _ \<Rightarrow>
          (let y_end = fst (last dfs);
               m = new_mat [y_start - life + 1..y_end + life - 1] [y_start - life + 1..y_end - 1]
           in if is_triangle fuel then setInitial_Triangle m dfs life
              else setInitial_Flat m dfs life))"

definition cohort_matrix :: "(string \<rightharpoonup> nat) \<Rightarrow> partition \<Rightarrow> py_error + mat" where
  "cohort_matrix lifetab p =
     (case stats p of
        [] \<Rightarrow> Inl IndexError
      | (y_start, _) # _ \<Rightarrow>
          (case lifetab (fueltype p) of
             None \<Rightarrow> Inl (KeyError (KStr (fueltype p)))
           | Some n \<Rightarrow>
               (case init_matrix (fueltype p) (stats p) (int n) of
                  Inl e \<Rightarrow> Inl e
                | Inr m \<Rightarrow>
                    if fst (last (stats p)) > y_start then setHistorical m (stats p) (int n)
                    else Inr m)))"

subsection \<open>Extraction\<close>

record cohort =
  Country :: string
  Technology :: string
  Fueltype :: string
  SetName :: string
  YearCommissioned :: int
  Capacity :: rat

text \<open>
  \<^verbatim>\<open>add.Capacity = list(mat.loc[:, base_year])\<close> raises KeyError when \<open>base_year\<close> is not
  a column; \<^verbatim>\<open>add[add.Capacity>0.0]\<close> drops the NaN rows with the others.
\<close>

definition extract_cohorts :: "partition \<Rightarrow> int \<Rightarrow> mat \<Rightarrow> py_error + cohort list" where
  "extract_cohorts p base_year m =
     (if base_year \<notin> set (columns m) then Inl (KeyError (KInt base_year))
      else Inr (concat (map (\<lambda>y.
             case cells m y base_year of
               None \<Rightarrow> []
             | Some v \<Rightarrow>
                 if v > 0 then
                   [\<lparr>Country = country p, Technology = technology p, Fueltype = fueltype p,
                     SetName = pset p, YearCommissioned = y, Capacity = v\<rparr>]
                 else []) (index m))))"

text \<open>The body of the loop over the partitions: the matrix, then its column at \<open>base_year\<close>.\<close>

definition partition_cohorts ::
  "(string \<rightharpoonup> nat) \<Rightarrow> int \<Rightarrow> partition \<Rightarrow> py_error + cohort list" where
  "partition_cohorts lifetab base_year p =
     (case cohort_matrix lifetab p of
        Inl e \<Rightarrow> Inl e
      | Inr m \<Rightarrow> extract_cohorts p base_year m)"

text \<open>The loop over the partitions; the first exception ends the call.\<close>

fun derive_partitions ::
  "(string \<rightharpoonup> nat) \<Rightarrow> int \<Rightarrow> partition list \<Rightarrow> cohort list \<Rightarrow> py_error + cohort list" where
  "derive_partitions lifetab base_year [] dfe = Inr dfe"
| "derive_partitions lifetab base_year (p # ps) dfe =
     (case partition_cohorts lifetab base_year p of
        Inl e \<Rightarrow> Inl e
      | Inr add \<Rightarrow> derive_partitions lifetab base_year ps (dfe @ add))"

text \<open>\<^verbatim>\<open>np.isclose(c, 0)\<close> with the default tolerances: \<open>|c| \<le> 1e-8\<close>.\<close>

definition isclose0 :: "rat \<Rightarrow> bool" where
  "isclose0 c = (\<bar>c\<bar> \<le> 1 / 100000000)"

text \<open>
  The result table is the list of its rows. \<^verbatim>\<open>dfe = pd.DataFrame(columns=df.columns)\<close>
  has columns of dtype \<^verbatim>\<open>object\<close>, and \<^verbatim>\<open>pd.concat\<close> takes the dtype of a column from
  the frames that have rows: \<^verbatim>\<open>dfe.Capacity\<close> is a float column as soon as one row has
  been appended and stays an \<^verbatim>\<open>object\<close> column while every appended frame is empty.
  On the empty \<^verbatim>\<open>object\<close> column the final \<^verbatim>\<open>np.isclose(dfe.Capacity, 0)\<close> raises
  \<^verbatim>\<open>TypeError\<close>; this is the only place where a dtype decides the outcome.
\<close>

definition derive_vintage_cohorts_from_statistics ::
  "(string \<rightharpoonup> nat) \<Rightarrow> partition list \<Rightarrow> int \<Rightarrow> py_error + cohort list" where
  "derive_vintage_cohorts_from_statistics lifetab df base_year =
     (case derive_partitions lifetab base_year df [] of
        Inl e \<Rightarrow> Inl e
      | Inr dfe \<Rightarrow>
          (case dfe of
             [] \<Rightarrow> Inl TypeError
           | _ # _ \<Rightarrow> Inr (filter (\<lambda>r. \<not> isclose0 (Capacity r)) dfe)))"

subsection \<open>States of the computation and their properties\<close>

text \<open>
  The matrix when the allocator loop has run through the years up to \<open>Y\<close>: the initial
  distribution, then the \<^verbatim>\<open>while\<close> loop with \<open>Y\<close> in place of its bound. Below
  the second observed year this is the initial distribution itself.
\<close>

definition matrix_upto :: "string \<Rightarrow> stats \<Rightarrow> int \<Rightarrow> int \<Rightarrow> py_error + mat" where
  "matrix_upto fuel dfs life Y =
     (case init_matrix fuel dfs life of
        Inl e \<Rightarrow> Inl e
      | Inr m \<Rightarrow>
          (case dfs of
             _ # (year1, _) # _ \<Rightarrow> setHistorical_while m dfs life year1 Y
           | _ \<Rightarrow> Inr m))"

text \<open>
  The capacity the initial distribution gives the vintage \<open>k\<close> years before the first
  observed year.
\<close>

definition initial_value :: "string \<Rightarrow> rat \<Rightarrow> int \<Rightarrow> int \<Rightarrow> rat" where
  "initial_value fuel cap life k =
     (if is_triangle fuel then triangle_height cap life k else cap / of_int life)"

text \<open>A cell that holds a positive value (\<^verbatim>\<open>val_rem > 0\<close>; false for NaN).\<close>

definition is_pos :: "rat option \<Rightarrow> bool" where
  "is_pos x = (case x of None \<Rightarrow> False | Some v \<Rightarrow> 0 < v)"

text \<open>The sum of the positive cells of column \<open>c\<close> over the rows \<open>rs\<close>.\<close>

definition pos_sum :: "int list \<Rightarrow> mat \<Rightarrow> int \<Rightarrow> rat" where
  "pos_sum rs m c = sum_list (map (\<lambda>r. max 0 (cell_val (cells m r c))) rs)"

text \<open>
  The positive capacity at column \<open>c\<close> of the rows that precede \<open>r\<close> in the index: the part
  of a deficit that the loop of \<^verbatim>\<open>reduceVintages\<close> has worked off when it reaches \<open>r\<close>.
\<close>

definition older_positive :: "mat \<Rightarrow> int \<Rightarrow> int \<Rightarrow> rat" where
  "older_positive m c r = pos_sum (takeWhile (\<lambda>x. x \<noteq> r) (index m)) m c"

text \<open>Every assigned cell of the matrix is non-negative.\<close>

definition nonneg :: "mat \<Rightarrow> bool" where
  "nonneg m =
     (\<forall>r\<in>set (index m). \<forall>c\<in>set (columns m).
        (case cells m r c of None \<Rightarrow> True | Some v \<Rightarrow> 0 \<le> v))"

text \<open>A cell that holds a non-zero value.\<close>

definition nonzero :: "mat \<Rightarrow> int \<Rightarrow> int \<Rightarrow> bool" where
  "nonzero m r c = (case cells m r c of None \<Rightarrow> False | Some v \<Rightarrow> v \<noteq> 0)"

text \<open>
  For every vintage row \<open>r\<close>, the columns with a non-zero value lie within
  \<open>[r, r + life - 1]\<close> and every year between two of them holds a non-zero value too.
\<close>

definition span_ok :: "int \<Rightarrow> mat \<Rightarrow> bool" where
  "span_ok life m =
     (\<forall>r\<in>set (index m).
        (\<forall>c\<in>set (columns m). nonzero m r c \<longrightarrow> r \<le> c \<and> c \<le> r + life - 1) \<and>
        (\<forall>c1\<in>set (columns m). \<forall>c3\<in>set (columns m).
           nonzero m r c1 \<and> nonzero m r c3 \<longrightarrow> (\<forall>c2\<in>set [c1..c3]. nonzero m r c2)))"

text \<open>A matrix of three vintages of 10 units each with a life of three years.\<close>

definition example_mat :: mat where
  "example_mat =
     \<lparr>index = [1998, 1999, 2000], columns = [1998, 1999, 2000, 2001, 2002],
      cells = (\<lambda>r c. if r \<le> c \<and> c \<le> r + 2 then Some 10 else None)\<rparr>"

definition example_partition :: partition where
  "example_partition =
     \<lparr>country = ''DE'', technology = ''Steam'', fueltype = ''Hard Coal'', pset = ''PP'',
      stats = [(2000, 100), (2001, 120), (2002, 90)]\<rparr>"

definition example_lifetab :: "string \<rightharpoonup> nat" where
  "example_lifetab = [''Hard Coal'' \<mapsto> 3, ''Wind'' \<mapsto> 4]"

definition single_year_partition :: partition where
  "single_year_partition =
     \<lparr>country = ''DE'', technology = ''Steam'', fueltype = ''Hard Coal'', pset = ''PP'',
      stats = [(2000, 100)]\<rparr>"

definition gap_partition :: partition where
  "gap_partition =
     \<lparr>country = ''DE'', technology = ''Steam'', fueltype = ''Hard Coal'', pset = ''PP'',
      stats = [(2000, 100), (2002, 120), (2003, 90), (2005, 130)]\<rparr>"

text \<open>A partition observed in 2000 and 2005 only.\<close>

definition sparse_partition :: partition where
  "sparse_partition =
     \<lparr>country = ''DE'', technology = ''Steam'', fueltype = ''Hard Coal'', pset = ''PP'',
      stats = [(2000, 100), (2005, 130)]\<rparr>"

text \<open>A partition whose rows are not in year order.\<close>

definition unordered_partition :: partition where
  "unordered_partition =
     \<lparr>country = ''DE'', technology = ''Steam'', fueltype = ''Hard Coal'', pset = ''PP'',
      stats = [(2000, 100), (2002, 50), (2001, 120)]\<rparr>"

section \<open>Properties\<close>

subsection \<open>Writing a row slice\<close>

lemma index_loc_set:
  "index (loc_set m y a b v) = (if y \<in> set (index m) then index m else index m @ [y])"
  by (simp add: loc_set_def)

lemma columns_loc_set: "columns (loc_set m y a b v) = columns m"
  by (simp add: loc_set_def)

lemma cells_loc_set:
  "cells (loc_set m y a b v) r c =
     (if r = y then
        (if c \<in> set (columns m) \<and> a \<le> c \<and> c \<le> b then Some v
         else if y \<in> set (index m) then cells m y c else None)
      else cells m r c)"
  by (simp add: loc_set_def)

lemma set_index_loc_set: "set (index (loc_set m y a b v)) = insert y (set (index m))"
  by (auto simp: index_loc_set)

lemma distinct_index_loc_set:
  "distinct (index m) \<Longrightarrow> distinct (index (loc_set m y a b v))"
  by (simp add: index_loc_set)

lemma sum_list_map_change_one:
  fixes f g :: "int \<Rightarrow> rat"
  assumes "distinct xs" "y \<in> set xs" "\<And>r. r \<noteq> y \<Longrightarrow> g r = f r"
  shows "sum_list (map g xs) = sum_list (map f xs) - f y + g y"
  using assms(1,2)
proof (induction xs)
  case Nil
  then show ?case by simp
next
  case (Cons x xs)
  show ?case
  proof (cases "x = y")
    case True
    with Cons.prems have "y \<notin> set xs" by simp
    then have "\<And>x. x \<in> set xs \<Longrightarrow> g x = f x"
      using assms(3) by metis
    then have "sum_list (map g xs) = sum_list (map f xs)"
      by (intro arg_cong [where f = sum_list] map_cong) auto
    with True show ?thesis by simp
  next
    case False
    with Cons have "sum_list (map g xs) = sum_list (map f xs) - f y + g y" by simp
    with False assms(3) show ?thesis by simp
  qed
qed

lemma sum_list_map_change_none:
  fixes f g :: "int \<Rightarrow> rat"
  assumes "y \<notin> set xs" "\<And>r. r \<noteq> y \<Longrightarrow> g r = f r"
  shows "sum_list (map g xs) = sum_list (map f xs)"
proof -
  have "\<And>x. x \<in> set xs \<Longrightarrow> g x = f x"
    using assms by metis
  then show ?thesis
    by (intro arg_cong [where f = sum_list] map_cong) auto
qed

lemma col_sum_loc_set_old:
  assumes "distinct (index m)" "y \<in> set (index m)"
  shows "col_sum (loc_set m y a b v) c =
         col_sum m c - cell_val (cells m y c) + cell_val (cells (loc_set m y a b v) y c)"
proof -
  have "sum_list (map (\<lambda>r. cell_val (cells (loc_set m y a b v) r c)) (index m)) =
        sum_list (map (\<lambda>r. cell_val (cells m r c)) (index m))
          - cell_val (cells m y c) + cell_val (cells (loc_set m y a b v) y c)"
    by (rule sum_list_map_change_one [OF assms]) (simp add: cells_loc_set)
  with assms(2) show ?thesis by (simp add: col_sum_def index_loc_set)
qed

lemma col_sum_loc_set_new:
  assumes "y \<notin> set (index m)"
  shows "col_sum (loc_set m y a b v) c =
         col_sum m c + cell_val (cells (loc_set m y a b v) y c)"
proof -
  have "sum_list (map (\<lambda>r. cell_val (cells (loc_set m y a b v) r c)) (index m)) =
        sum_list (map (\<lambda>r. cell_val (cells m r c)) (index m))"
    by (rule sum_list_map_change_none [OF assms]) (simp add: cells_loc_set)
  with assms show ?thesis by (simp add: col_sum_def index_loc_set)
qed

text \<open>Writing a row whose cell in column c holds no value adds the written value to the column sum.\<close>
lemma col_sum_loc_set_fresh:
  assumes "distinct (index m)" "cells m y c = None"
  shows "col_sum (loc_set m y a b v) c =
         col_sum m c + cell_val (cells (loc_set m y a b v) y c)"
proof (cases "y \<in> set (index m)")
  case True
  then show ?thesis using col_sum_loc_set_old [OF assms(1) True] assms(2)
    by (simp add: cell_val_def)
next
  case False
  then show ?thesis by (rule col_sum_loc_set_new)
qed

subsection \<open>Forced retirement\<close>

lemma pos_sum_nonneg: "0 \<le> pos_sum rs m c"
  unfolding pos_sum_def by (rule sum_list_nonneg) auto

lemma pos_sum_Cons: "pos_sum (r # rs) m c = max 0 (cell_val (cells m r c)) + pos_sum rs m c"
  by (simp add: pos_sum_def)

lemma pos_sum_cong:
  assumes "\<And>r. r \<in> set rs \<Longrightarrow> cells m' r c = cells m r c"
  shows "pos_sum rs m' c = pos_sum rs m c"
  unfolding pos_sum_def
  by (intro arg_cong [where f = sum_list] map_cong) (auto simp: assms)

lemma reduce_rows_succeeds:
  "y_pres \<in> set (columns m) \<Longrightarrow> \<exists>m'. reduce_rows rs addition m life y_pres = Inr m'"
proof (induction rs arbitrary: addition m)
  case Nil
  then show ?case by simp
next
  case (Cons r rs)
  then show ?case
    by (auto simp: columns_loc_set split: option.splits)
qed

lemma reduce_rows_shape:
  "reduce_rows rs addition m life y_pres = Inr m' \<Longrightarrow> set rs \<subseteq> set (index m) \<Longrightarrow>
   index m' = index m \<and> columns m' = columns m"
proof (induction rs arbitrary: addition m)
  case Nil
  then show ?case by simp
next
  case (Cons r rs)
  then show ?case
    by (fastforce simp: columns_loc_set index_loc_set split: option.splits if_splits)
qed

lemma reduce_rows_other_rows:
  "reduce_rows rs addition m life y_pres = Inr m' \<Longrightarrow> r \<notin> set rs \<Longrightarrow>
   cells m' r c = cells m r c"
proof (induction rs arbitrary: addition m)
  case Nil
  then show ?case by simp
next
  case (Cons x rs)
  then show ?case
    by (fastforce simp: cells_loc_set split: option.splits if_splits)
qed

lemma reduce_rows_col_sum:
  assumes "reduce_rows rs addition m life y_pres = Inr m'"
    and "addition < 0" and "y_pres \<in> set (columns m)"
    and "distinct (index m)" and "distinct rs" and "set rs \<subseteq> set (index m)"
    and "\<forall>r\<in>set rs. is_pos (cells m r y_pres) \<longrightarrow> y_pres \<le> r + life - 1"
  shows "col_sum m' y_pres = col_sum m y_pres - min (- addition) (pos_sum rs m y_pres)"
  using assms
proof (induction rs arbitrary: addition m)
  case Nil
  then show ?case by (simp add: pos_sum_def)
next
  case (Cons r rs)
  have r_in: "r \<in> set (index m)" and r_notin: "r \<notin> set rs"
    and sub: "set rs \<subseteq> set (index m)" and drs: "distinct rs"
    using Cons.prems by auto
  have span: "\<forall>r'\<in>set rs. is_pos (cells m r' y_pres) \<longrightarrow> y_pres \<le> r' + life - 1"
    using Cons.prems by simp
  consider (skip) "\<not> is_pos (cells m r y_pres)"
    | (full) R where "cells m r y_pres = Some R" "0 < R" "\<bar>addition\<bar> > R"
    | (part) R where "cells m r y_pres = Some R" "0 < R" "\<not> \<bar>addition\<bar> > R"
    by (cases "cells m r y_pres") (auto simp: is_pos_def)
  then show ?case
  proof cases
    case skip
    then have run: "reduce_rows rs addition m life y_pres = Inr m'"
      using Cons.prems(1,3) by (auto simp: is_pos_def split: option.splits if_splits)
    have "max 0 (cell_val (cells m r y_pres)) = 0"
      using skip by (auto simp: is_pos_def cell_val_def split: option.splits)
    then have "pos_sum (r # rs) m y_pres = pos_sum rs m y_pres"
      by (simp add: pos_sum_Cons)
    with Cons.IH [OF run Cons.prems(2,3,4) drs sub span] show ?thesis by simp
  next
    case full
    define m1 where "m1 = loc_set m r y_pres (r + life - 1) 0"
    have run: "reduce_rows rs (addition + R) m1 life y_pres = Inr m'"
      using Cons.prems(1,3) full by (simp add: m1_def)
    have neg: "addition + R < 0" using full Cons.prems(2) by simp
    have le: "y_pres \<le> r + life - 1"
      using Cons.prems(7) full by (simp add: is_pos_def)
    have same: "\<And>r'. r' \<in> set rs \<Longrightarrow> cells m1 r' y_pres = cells m r' y_pres"
      using r_notin by (auto simp: m1_def cells_loc_set)
    have span1: "\<forall>r'\<in>set rs. is_pos (cells m1 r' y_pres) \<longrightarrow> y_pres \<le> r' + life - 1"
      using span same by simp
    have c1: "y_pres \<in> set (columns m1)" using Cons.prems(3) by (simp add: m1_def columns_loc_set)
    have d1: "distinct (index m1)" using Cons.prems(4) by (simp add: m1_def distinct_index_loc_set)
    have s1: "set rs \<subseteq> set (index m1)" using sub by (auto simp: m1_def index_loc_set)
    have ih: "col_sum m' y_pres = col_sum m1 y_pres - min (- (addition + R)) (pos_sum rs m1 y_pres)"
      by (rule Cons.IH [OF run neg c1 d1 drs s1 span1])
    have new: "cells m1 r y_pres = Some 0"
      using Cons.prems(3) le by (simp add: m1_def cells_loc_set)
    have cs: "col_sum m1 y_pres = col_sum m y_pres - R"
      using col_sum_loc_set_old [OF Cons.prems(4) r_in, of y_pres "r + life - 1" 0 y_pres] new full
      by (simp add: m1_def cell_val_def)
    have ps: "pos_sum rs m1 y_pres = pos_sum rs m y_pres"
      by (rule pos_sum_cong) (rule same)
    have pc: "pos_sum (r # rs) m y_pres = R + pos_sum rs m y_pres"
      using full by (simp add: pos_sum_Cons cell_val_def)
    show ?thesis unfolding ih cs ps pc by (simp add: min_def)
  next
    case part
    have res: "m' = loc_set m r y_pres (r + life - 1) (R + addition)"
      using Cons.prems(1,3) part by simp
    have le: "y_pres \<le> r + life - 1"
      using Cons.prems(7) part by (simp add: is_pos_def)
    have new: "cells m' r y_pres = Some (R + addition)"
      using Cons.prems(3) le by (simp add: res cells_loc_set)
    have cs: "col_sum m' y_pres = col_sum m y_pres + addition"
      using col_sum_loc_set_old [OF Cons.prems(4) r_in, of y_pres "r + life - 1" "R + addition" y_pres]
        new part
      by (simp add: res cell_val_def)
    have pc: "pos_sum (r # rs) m y_pres = R + pos_sum rs m y_pres"
      using part by (simp add: pos_sum_Cons cell_val_def)
    have "- addition \<le> R + pos_sum rs m y_pres"
      using part Cons.prems(2) pos_sum_nonneg [of rs m y_pres] by simp
    then show ?thesis unfolding cs pc by (simp add: min_def)
  qed
qed

lemma reduce_rows_insufficient:
  assumes "reduce_rows rs addition m life y_pres = Inr m'"
    and "addition < 0" and "y_pres \<in> set (columns m)"
    and "distinct rs" and "set rs \<subseteq> set (index m)"
    and "pos_sum rs m y_pres < - addition"
  shows "cells m' r c =
           (if r \<in> set rs \<and> is_pos (cells m r y_pres) \<and> c \<in> set (columns m)
               \<and> y_pres \<le> c \<and> c \<le> r + life - 1
            then Some 0 else cells m r c)"
  using assms
proof (induction rs arbitrary: addition m)
  case Nil
  then show ?case by simp
next
  case (Cons x rs)
  have x_in: "x \<in> set (index m)" and x_notin: "x \<notin> set rs"
    and sub: "set rs \<subseteq> set (index m)" and drs: "distinct rs"
    using Cons.prems by auto
  show ?case
  proof (cases "is_pos (cells m x y_pres)")
    case False
    then have run: "reduce_rows rs addition m life y_pres = Inr m'"
      using Cons.prems(1,3) by (auto simp: is_pos_def split: option.splits if_splits)
    have "max 0 (cell_val (cells m x y_pres)) = 0"
      using False by (auto simp: is_pos_def cell_val_def split: option.splits)
    then have "pos_sum rs m y_pres < - addition"
      using Cons.prems(6) by (simp add: pos_sum_Cons)
    from Cons.IH [OF run Cons.prems(2,3) drs sub this] False show ?thesis by auto
  next
    case True
    then obtain R where R: "cells m x y_pres = Some R" "0 < R"
      by (auto simp: is_pos_def split: option.splits)
    have pc: "pos_sum (x # rs) m y_pres = R + pos_sum rs m y_pres"
      using R by (simp add: pos_sum_Cons cell_val_def)
    have big: "\<bar>addition\<bar> > R"
      using Cons.prems(2,6) pos_sum_nonneg [of rs m y_pres] unfolding pc by simp
    define m1 where "m1 = loc_set m x y_pres (x + life - 1) 0"
    have run: "reduce_rows rs (addition + R) m1 life y_pres = Inr m'"
      using Cons.prems(1,3) R big by (simp add: m1_def)
    have neg: "addition + R < 0" using big Cons.prems(2) by simp
    have same: "\<And>r' c'. r' \<noteq> x \<Longrightarrow> cells m1 r' c' = cells m r' c'"
      by (simp add: m1_def cells_loc_set)
    have c1: "y_pres \<in> set (columns m1)" using Cons.prems(3) by (simp add: m1_def columns_loc_set)
    have s1: "set rs \<subseteq> set (index m1)" using sub by (auto simp: m1_def index_loc_set)
    have "pos_sum rs m1 y_pres = pos_sum rs m y_pres"
      using x_notin by (intro pos_sum_cong same) auto
    then have less: "pos_sum rs m1 y_pres < - (addition + R)"
      using Cons.prems(6) unfolding pc by simp
    have ih: "cells m' r c =
           (if r \<in> set rs \<and> is_pos (cells m1 r y_pres) \<and> c \<in> set (columns m1)
               \<and> y_pres \<le> c \<and> c \<le> r + life - 1
            then Some 0 else cells m1 r c)"
      by (rule Cons.IH [OF run neg c1 drs s1 less])
    show ?thesis
    proof (cases "r = x")
      case True
      then show ?thesis
        using ih x_notin x_in \<open>is_pos (cells m x y_pres)\<close>
        by (simp add: m1_def cells_loc_set columns_loc_set)
    next
      case False
      then show ?thesis using ih same [OF False] by (simp add: m1_def columns_loc_set)
    qed
  qed
qed

lemma reduce_rows_row:
  assumes "reduce_rows rs addition m life y_pres = Inr m'"
    and "addition < 0" and "distinct rs" and "set rs \<subseteq> set (index m)"
  shows "(\<forall>c. cells m' r c = cells m r c) \<or>
         (r \<in> set rs \<and> (\<exists>R w. cells m r y_pres = Some R \<and> 0 < R \<and> 0 \<le> w \<and> w < R \<and>
            (\<forall>c. cells m' r c =
               (if c \<in> set (columns m) \<and> y_pres \<le> c \<and> c \<le> r + life - 1 then Some w
                else cells m r c))))"
  using assms
proof (induction rs arbitrary: addition m)
  case Nil
  then show ?case by simp
next
  case (Cons x rs)
  have x_notin: "x \<notin> set rs" and drs: "distinct rs"
    and x_in: "x \<in> set (index m)" and sub: "set rs \<subseteq> set (index m)"
    using Cons.prems by auto
  have col: "y_pres \<in> set (columns m)"
    using Cons.prems(1) by (auto split: if_splits)
  consider (skip) "\<not> is_pos (cells m x y_pres)"
    | (full) R where "cells m x y_pres = Some R" "0 < R" "\<bar>addition\<bar> > R"
    | (part) R where "cells m x y_pres = Some R" "0 < R" "\<not> \<bar>addition\<bar> > R"
    by (cases "cells m x y_pres") (auto simp: is_pos_def)
  then show ?case
  proof cases
    case skip
    then have run: "reduce_rows rs addition m life y_pres = Inr m'"
      using Cons.prems(1) col by (auto simp: is_pos_def split: option.splits if_splits)
    from Cons.IH [OF run Cons.prems(2) drs sub] show ?thesis by auto
  next
    case full
    define m1 where "m1 = loc_set m x y_pres (x + life - 1) 0"
    have run: "reduce_rows rs (addition + R) m1 life y_pres = Inr m'"
      using Cons.prems(1) col full by (simp add: m1_def)
    have neg: "addition + R < 0" using full Cons.prems(2) by simp
    have s1: "set rs \<subseteq> set (index m1)" using sub by (auto simp: m1_def index_loc_set)
    show ?thesis
    proof (cases "r = x")
      case True
      have "\<forall>c. cells m' x c = cells m1 x c"
        using reduce_rows_other_rows [OF run x_notin] by simp
      then have "\<forall>c. cells m' x c =
               (if c \<in> set (columns m) \<and> y_pres \<le> c \<and> c \<le> x + life - 1 then Some 0
                else cells m x c)"
        using x_in by (auto simp: m1_def cells_loc_set)
      with True full show ?thesis by auto
    next
      case False
      then have same: "\<And>c. cells m1 r c = cells m r c"
        by (simp add: m1_def cells_loc_set)
      from Cons.IH [OF run neg drs s1, unfolded same] show ?thesis
        by (auto simp: m1_def columns_loc_set)
    qed
  next
    case part
    have res: "m' = loc_set m x y_pres (x + life - 1) (R + addition)"
      using Cons.prems(1) col part by simp
    show ?thesis
    proof (cases "r = x")
      case True
      have "0 \<le> R + addition" "R + addition < R"
        using part Cons.prems(2) by auto
      moreover have "\<forall>c. cells m' x c =
               (if c \<in> set (columns m) \<and> y_pres \<le> c \<and> c \<le> x + life - 1 then Some (R + addition)
                else cells m x c)"
        using x_in by (auto simp: res cells_loc_set)
      ultimately show ?thesis using True part by auto
    next
      case False
      then show ?thesis by (simp add: res cells_loc_set)
    qed
  qed
qed

lemma reduce_rows_oldest_first:
  assumes "reduce_rows rs addition m life y_pres = Inr m'"
    and "addition < 0" and "sorted_wrt (<) rs"
    and "\<forall>r\<in>set rs. is_pos (cells m r y_pres) \<longrightarrow> y_pres \<le> r + life - 1"
    and "r1 \<in> set rs" and "r2 \<in> set rs" and "r1 < r2"
    and "is_pos (cells m r1 y_pres)"
    and "cells m' r2 y_pres \<noteq> cells m r2 y_pres"
  shows "cells m' r1 y_pres = Some 0"
  using assms
proof (induction rs arbitrary: addition m)
  case Nil
  then show ?case by simp
next
  case (Cons x rs)
  have x_less: "\<forall>r\<in>set rs. x < r" and srs: "sorted_wrt (<) rs"
    using Cons.prems(3) by auto
  then have x_notin: "x \<notin> set rs" by auto
  have col: "y_pres \<in> set (columns m)"
    using Cons.prems(1) by (auto split: if_splits)
  have r2_in: "r2 \<in> set rs" and r2_ne: "r2 \<noteq> x"
    using Cons.prems(5,6,7) x_less by auto
  have span: "\<forall>r\<in>set rs. is_pos (cells m r y_pres) \<longrightarrow> y_pres \<le> r + life - 1"
    using Cons.prems(4) by simp
  consider (skip) "\<not> is_pos (cells m x y_pres)"
    | (full) R where "cells m x y_pres = Some R" "0 < R" "\<bar>addition\<bar> > R"
    | (part) R where "cells m x y_pres = Some R" "0 < R" "\<not> \<bar>addition\<bar> > R"
    by (cases "cells m x y_pres") (auto simp: is_pos_def)
  then show ?case
  proof cases
    case skip
    then have run: "reduce_rows rs addition m life y_pres = Inr m'"
      using Cons.prems(1) col by (auto simp: is_pos_def split: option.splits if_splits)
    have "r1 \<in> set rs" using skip Cons.prems(5,8) by auto
    from Cons.IH [OF run Cons.prems(2) srs span this r2_in Cons.prems(7,8,9)]
    show ?thesis .
  next
    case full
    define m1 where "m1 = loc_set m x y_pres (x + life - 1) 0"
    have run: "reduce_rows rs (addition + R) m1 life y_pres = Inr m'"
      using Cons.prems(1) col full by (simp add: m1_def)
    have neg: "addition + R < 0" using full Cons.prems(2) by simp
    have same: "\<And>r' c'. r' \<noteq> x \<Longrightarrow> cells m1 r' c' = cells m r' c'"
      by (simp add: m1_def cells_loc_set)
    show ?thesis
    proof (cases "r1 = x")
      case True
      have le: "y_pres \<le> x + life - 1"
        using Cons.prems(4) full by (simp add: is_pos_def)
      have "cells m' x y_pres = cells m1 x y_pres"
        by (rule reduce_rows_other_rows [OF run x_notin])
      also have "\<dots> = Some 0"
        using col le by (simp add: m1_def cells_loc_set)
      finally show ?thesis using True by simp
    next
      case False
      then have r1_in: "r1 \<in> set rs" using Cons.prems(5) by simp
      have span1: "\<forall>r\<in>set rs. is_pos (cells m1 r y_pres) \<longrightarrow> y_pres \<le> r + life - 1"
        using span x_notin same by (metis)
      have p1: "is_pos (cells m1 r1 y_pres)"
        using Cons.prems(8) same [OF False] by simp
      have ch: "cells m' r2 y_pres \<noteq> cells m1 r2 y_pres"
        using Cons.prems(9) same [OF r2_ne] by simp
      from Cons.IH [OF run neg srs span1 r1_in r2_in Cons.prems(7) p1 ch]
      show ?thesis .
    qed
  next
    case part
    have res: "m' = loc_set m x y_pres (x + life - 1) (R + addition)"
      using Cons.prems(1) col part by simp
    then have "cells m' r2 y_pres = cells m r2 y_pres"
      using r2_ne by (simp add: cells_loc_set)
    with Cons.prems(9) show ?thesis by simp
  qed
qed

lemma col_sum_pos_sum:
  assumes "\<forall>r\<in>set (index m). 0 \<le> cell_val (cells m r c)"
  shows "col_sum m c = pos_sum (index m) m c"
  unfolding col_sum_def pos_sum_def
  by (intro arg_cong [where f = sum_list] map_cong) (use assms in \<open>auto simp: max_def\<close>)

lemma reduce_rows_closed_form:
  assumes "reduce_rows rs addition m life y_pres = Inr m'"
    and "addition < 0" and "distinct rs" and "set rs \<subseteq> set (index m)"
  shows "cells m' r c =
           (if r \<in> set rs \<and> is_pos (cells m r y_pres) \<and>
               pos_sum (takeWhile (\<lambda>x. x \<noteq> r) rs) m y_pres < - addition \<and>
               c \<in> set (columns m) \<and> y_pres \<le> c \<and> c \<le> r + life - 1
            then Some (cell_val (cells m r y_pres)
                         - min (cell_val (cells m r y_pres))
                               (- addition - pos_sum (takeWhile (\<lambda>x. x \<noteq> r) rs) m y_pres))
            else cells m r c)"
  using assms
proof (induction rs arbitrary: addition m)
  case Nil
  then show ?case by simp
next
  case (Cons x rs)
  have x_notin: "x \<notin> set rs" and drs: "distinct rs"
    and x_in: "x \<in> set (index m)" and sub: "set rs \<subseteq> set (index m)"
    using Cons.prems by auto
  have col: "y_pres \<in> set (columns m)"
    using Cons.prems(1) by (auto split: if_splits)
  consider (skip) "\<not> is_pos (cells m x y_pres)"
    | (full) R where "cells m x y_pres = Some R" "0 < R" "\<bar>addition\<bar> > R"
    | (part) R where "cells m x y_pres = Some R" "0 < R" "\<not> \<bar>addition\<bar> > R"
    by (cases "cells m x y_pres") (auto simp: is_pos_def)
  then show ?case
  proof cases
    case skip
    then have run: "reduce_rows rs addition m life y_pres = Inr m'"
      using Cons.prems(1) col by (auto simp: is_pos_def split: option.splits if_splits)
    have z: "max 0 (cell_val (cells m x y_pres)) = 0"
      using skip by (auto simp: is_pos_def cell_val_def split: option.splits)
    show ?thesis
    proof (cases "r = x")
      case True
      have "cells m' x c = cells m x c"
        by (rule reduce_rows_other_rows [OF run x_notin])
      with True skip show ?thesis by simp
    next
      case False
      then have "pos_sum (takeWhile (\<lambda>y. y \<noteq> r) (x # rs)) m y_pres
                 = pos_sum (takeWhile (\<lambda>y. y \<noteq> r) rs) m y_pres"
        using z by (simp add: pos_sum_Cons)
      with Cons.IH [OF run Cons.prems(2) drs sub] False show ?thesis by simp
    qed
  next
    case full
    define m1 where "m1 = loc_set m x y_pres (x + life - 1) 0"
    have run: "reduce_rows rs (addition + R) m1 life y_pres = Inr m'"
      using Cons.prems(1) col full by (simp add: m1_def)
    have neg: "addition + R < 0" using full Cons.prems(2) by simp
    have s1: "set rs \<subseteq> set (index m1)" using sub by (auto simp: m1_def set_index_loc_set)
    have same: "\<And>r' c'. r' \<noteq> x \<Longrightarrow> cells m1 r' c' = cells m r' c'"
      by (simp add: m1_def cells_loc_set)
    show ?thesis
    proof (cases "r = x")
      case True
      have "cells m' x c = cells m1 x c"
        by (rule reduce_rows_other_rows [OF run x_notin])
      also have "\<dots> = (if c \<in> set (columns m) \<and> y_pres \<le> c \<and> c \<le> x + life - 1
                        then Some 0 else cells m x c)"
        using x_in by (simp add: m1_def cells_loc_set)
      finally show ?thesis
        using True full Cons.prems(2)
        by (simp add: is_pos_def cell_val_def pos_sum_def min_def)
    next
      case False
      have tw: "set (takeWhile (\<lambda>y. y \<noteq> r) rs) \<subseteq> set rs" by (auto dest: set_takeWhileD)
      have ps: "pos_sum (takeWhile (\<lambda>y. y \<noteq> r) rs) m1 y_pres
                = pos_sum (takeWhile (\<lambda>y. y \<noteq> r) rs) m y_pres"
      proof (rule pos_sum_cong)
        fix r' assume "r' \<in> set (takeWhile (\<lambda>y. y \<noteq> r) rs)"
        then have "r' \<in> set rs" using tw by blast
        then have "r' \<noteq> x" using x_notin by blast
        then show "cells m1 r' y_pres = cells m r' y_pres" by (rule same)
      qed
      define B' where "B' = pos_sum (takeWhile (\<lambda>y. y \<noteq> r) rs) m y_pres"
      define B where "B = pos_sum (takeWhile (\<lambda>y. y \<noteq> r) (x # rs)) m y_pres"
      have pc: "B = R + B'"
        using False full by (simp add: B_def B'_def pos_sum_Cons cell_val_def)
      have cm: "columns m1 = columns m" by (simp add: m1_def columns_loc_set)
      have ih: "cells m' r c =
           (if r \<in> set rs \<and> is_pos (cells m r y_pres) \<and> B' < - (addition + R) \<and>
               c \<in> set (columns m) \<and> y_pres \<le> c \<and> c \<le> r + life - 1
            then Some (cell_val (cells m r y_pres)
                         - min (cell_val (cells m r y_pres)) (- (addition + R) - B'))
            else cells m r c)"
        using Cons.IH [OF run neg drs s1] unfolding ps same [OF False] cm B'_def .
      have e1: "- (addition + R) - B' = - addition - B" unfolding pc by simp
      have e2: "B' < - (addition + R) \<longleftrightarrow> B < - addition" unfolding pc by auto
      have mem: "r \<in> set (x # rs) \<longleftrightarrow> r \<in> set rs" using False by simp
      show ?thesis
        unfolding B_def [symmetric] mem using ih unfolding e1 e2 .
    qed
  next
    case part
    have res: "m' = loc_set m x y_pres (x + life - 1) (R + addition)"
      using Cons.prems(1) col part by simp
    show ?thesis
    proof (cases "r = x")
      case True
      have "cells m' x c = (if c \<in> set (columns m) \<and> y_pres \<le> c \<and> c \<le> x + life - 1
                        then Some (R + addition) else cells m x c)"
        using x_in by (simp add: res cells_loc_set)
      then show ?thesis
        using True part Cons.prems(2)
        by (simp add: is_pos_def cell_val_def pos_sum_def min_def)
    next
      case False
      have "pos_sum (takeWhile (\<lambda>y. y \<noteq> r) (x # rs)) m y_pres
                = R + pos_sum (takeWhile (\<lambda>y. y \<noteq> r) rs) m y_pres"
        using False part by (simp add: pos_sum_Cons cell_val_def)
      then have "\<not> pos_sum (takeWhile (\<lambda>y. y \<noteq> r) (x # rs)) m y_pres < - addition"
        using part Cons.prems(2) pos_sum_nonneg [of "takeWhile (\<lambda>y. y \<noteq> r) rs" m y_pres] by simp
      then show ?thesis using False by (simp add: res cells_loc_set)
    qed
  qed
qed

text \<open>
  C2. Called with a deficit \<open>D > 0\<close> at a column \<open>y_pres\<close>, on a matrix whose rows are in
  ascending order, whose cells in that column are non-negative and whose positive
  cells there lie within their row's scheduled span, \<^verbatim>\<open>reduceVintages\<close> returns a
  matrix with the same rows and columns. A row is either left as it was, or it held
  \<open>R > 0\<close> at \<open>y_pres\<close> and its cells from \<open>y_pres\<close> through \<open>r + life - 1\<close> all hold one new
  value \<open>w\<close> with \<open>0 \<le> w < R\<close>. With \<open>older\<close> the positive capacity of the rows before \<open>r\<close>,
  a positive row reached with a remaining deficit \<open>D - older > 0\<close> is set to zero when
  that remainder exceeds \<open>R\<close> and to \<open>R - (D - older)\<close> otherwise, and every other cell is
  unchanged; so a row is touched only when every older positive row has been set to
  zero. If the column sum is at least \<open>D\<close>, the new column sum is the
  old one minus \<open>D\<close>; if it is less, no error is raised and every positive row is
  zero from \<open>y_pres\<close> through its scheduled end.
\<close>

theorem reduceVintages_waterfall:
  assumes "0 < D" and "y_pres \<in> set (columns m)" and "sorted_wrt (<) (index m)"
    and "\<forall>r\<in>set (index m). 0 \<le> cell_val (cells m r y_pres)"
    and "\<forall>r\<in>set (index m). is_pos (cells m r y_pres) \<longrightarrow> y_pres \<le> r + life - 1"
  shows "\<exists>m'. reduceVintages (- D) m life y_pres = Inr m' \<and>
           index m' = index m \<and> columns m' = columns m \<and>
           (\<forall>r. (\<forall>c. cells m' r c = cells m r c) \<or>
                (r \<in> set (index m) \<and>
                 (\<exists>R w. cells m r y_pres = Some R \<and> 0 < R \<and> 0 \<le> w \<and> w < R \<and>
                    (\<forall>c. cells m' r c =
                       (if c \<in> set (columns m) \<and> y_pres \<le> c \<and> c \<le> r + life - 1
                        then Some w else cells m r c))))) \<and>
           (\<forall>r c. cells m' r c =
              (if r \<in> set (index m) \<and> is_pos (cells m r y_pres) \<and>
                  older_positive m y_pres r < D \<and>
                  c \<in> set (columns m) \<and> y_pres \<le> c \<and> c \<le> r + life - 1
               then Some (if cell_val (cells m r y_pres) < D - older_positive m y_pres r then 0
                          else cell_val (cells m r y_pres) - (D - older_positive m y_pres r))
               else cells m r c)) \<and>
           (\<forall>r1 r2. r1 \<in> set (index m) \<and> r2 \<in> set (index m) \<and> r1 < r2 \<and>
                is_pos (cells m r1 y_pres) \<and> cells m' r2 y_pres \<noteq> cells m r2 y_pres
                \<longrightarrow> cells m' r1 y_pres = Some 0) \<and>
           (D \<le> col_sum m y_pres \<longrightarrow> col_sum m' y_pres = col_sum m y_pres - D) \<and>
           (col_sum m y_pres < D \<longrightarrow>
              (\<forall>r c. cells m' r c =
                 (if r \<in> set (index m) \<and> is_pos (cells m r y_pres) \<and> c \<in> set (columns m)
                     \<and> y_pres \<le> c \<and> c \<le> r + life - 1
                  then Some 0 else cells m r c)))"
proof -
  have neg: "- D < 0" using assms(1) by simp
  have dist: "distinct (index m)"
    using assms(3) by (simp add: strict_sorted_iff)
  obtain m' where run: "reduce_rows (index m) (- D) m life y_pres = Inr m'"
    using reduce_rows_succeeds [OF assms(2)] by blast
  have shape: "index m' = index m \<and> columns m' = columns m"
    using reduce_rows_shape [OF run] by simp
  have rows: "\<forall>r. (\<forall>c. cells m' r c = cells m r c) \<or>
                (r \<in> set (index m) \<and>
                 (\<exists>R w. cells m r y_pres = Some R \<and> 0 < R \<and> 0 \<le> w \<and> w < R \<and>
                    (\<forall>c. cells m' r c =
                       (if c \<in> set (columns m) \<and> y_pres \<le> c \<and> c \<le> r + life - 1
                        then Some w else cells m r c))))"
    using reduce_rows_row [OF run neg dist] by simp
  have order: "\<forall>r1 r2. r1 \<in> set (index m) \<and> r2 \<in> set (index m) \<and> r1 < r2 \<and>
                is_pos (cells m r1 y_pres) \<and> cells m' r2 y_pres \<noteq> cells m r2 y_pres
                \<longrightarrow> cells m' r1 y_pres = Some 0"
    using reduce_rows_oldest_first [OF run neg assms(3,5)] by blast
  have closed: "\<forall>r c. cells m' r c =
              (if r \<in> set (index m) \<and> is_pos (cells m r y_pres) \<and>
                  older_positive m y_pres r < D \<and>
                  c \<in> set (columns m) \<and> y_pres \<le> c \<and> c \<le> r + life - 1
               then Some (if cell_val (cells m r y_pres) < D - older_positive m y_pres r then 0
                          else cell_val (cells m r y_pres) - (D - older_positive m y_pres r))
               else cells m r c)"
  proof (intro allI)
    fix r c
    have "min (cell_val (cells m r y_pres)) (D - older_positive m y_pres r)
          = (if cell_val (cells m r y_pres) < D - older_positive m y_pres r
             then cell_val (cells m r y_pres) else D - older_positive m y_pres r)"
      by (simp add: min_def)
    then show "cells m' r c =
              (if r \<in> set (index m) \<and> is_pos (cells m r y_pres) \<and>
                  older_positive m y_pres r < D \<and>
                  c \<in> set (columns m) \<and> y_pres \<le> c \<and> c \<le> r + life - 1
               then Some (if cell_val (cells m r y_pres) < D - older_positive m y_pres r then 0
                          else cell_val (cells m r y_pres) - (D - older_positive m y_pres r))
               else cells m r c)"
      using reduce_rows_closed_form [OF run neg dist subset_refl, of r c]
      unfolding older_positive_def [symmetric] by simp
  qed
  have total: "col_sum m y_pres = pos_sum (index m) m y_pres"
    by (rule col_sum_pos_sum [OF assms(4)])
  have "col_sum m' y_pres = col_sum m y_pres - min (- (- D)) (pos_sum (index m) m y_pres)"
    by (rule reduce_rows_col_sum [OF run neg assms(2) dist dist _ assms(5)]) simp
  then have enough: "D \<le> col_sum m y_pres \<longrightarrow> col_sum m' y_pres = col_sum m y_pres - D"
    unfolding total by (simp add: min_def)
  have short: "col_sum m y_pres < D \<longrightarrow>
              (\<forall>r c. cells m' r c =
                 (if r \<in> set (index m) \<and> is_pos (cells m r y_pres) \<and> c \<in> set (columns m)
                     \<and> y_pres \<le> c \<and> c \<le> r + life - 1
                  then Some 0 else cells m r c))"
  proof (intro impI allI)
    fix r c
    assume "col_sum m y_pres < D"
    then have "pos_sum (index m) m y_pres < - (- D)" unfolding total by simp
    from reduce_rows_insufficient [OF run neg assms(2) dist _ this]
    show "cells m' r c =
                 (if r \<in> set (index m) \<and> is_pos (cells m r y_pres) \<and> c \<in> set (columns m)
                     \<and> y_pres \<le> c \<and> c \<le> r + life - 1
                  then Some 0 else cells m r c)"
      by simp
  qed
  show ?thesis
    unfolding reduceVintages_def
    using run shape rows closed order enough short by blast
qed

theorem reduceVintages_waterfall_witness:
  "(0::rat) < 15 \<and> 2000 \<in> set (columns example_mat) \<and> sorted_wrt (<) (index example_mat) \<and>
   col_sum example_mat 2000 = 30 \<and>
   (\<exists>m'. reduceVintages (- 15) example_mat 3 2000 = Inr m' \<and> col_sum m' 2000 = 15)"
proof -
  have h: "(0::rat) < 15" "2000 \<in> set (columns example_mat)" "sorted_wrt (<) (index example_mat)"
    "\<forall>r\<in>set (index example_mat). 0 \<le> cell_val (cells example_mat r 2000)"
    "\<forall>r\<in>set (index example_mat). is_pos (cells example_mat r 2000) \<longrightarrow> 2000 \<le> r + 3 - 1"
    by (simp_all add: example_mat_def cell_val_def is_pos_def)
  have s: "col_sum example_mat 2000 = 30"
    by (simp add: example_mat_def col_sum_def cell_val_def)
  from reduceVintages_waterfall [OF h] s h show ?thesis by auto
qed

subsection \<open>The initial distribution\<close>

lemma setInitial_rows_succeeds:
  assumes "columns m \<noteq> []" "\<forall>y\<in>set ys. dic y \<noteq> None"
  shows "\<exists>m'. setInitial_rows ys m life dic = Inr m'"
  using assms
proof (induction ys arbitrary: m)
  case Nil
  then show ?case by simp
next
  case (Cons y ys)
  then show ?case by (auto simp: columns_loc_set)
qed

lemma setInitial_rows_columns:
  "setInitial_rows ys m life dic = Inr m' \<Longrightarrow> columns m' = columns m"
proof (induction ys arbitrary: m)
  case Nil
  then show ?case by simp
next
  case (Cons y ys)
  then show ?case
    by (fastforce simp: columns_loc_set split: if_splits option.splits)
qed

lemma setInitial_rows_index:
  "setInitial_rows ys m life dic = Inr m' \<Longrightarrow>
   set (index m') = set (index m) \<union> set ys \<and> (distinct (index m) \<longrightarrow> distinct (index m'))"
proof (induction ys arbitrary: m)
  case Nil
  then show ?case by simp
next
  case (Cons y ys)
  from Cons.prems obtain v where v: "dic y = Some v"
    and run: "setInitial_rows ys (loc_set m y y (min (y + life - 1) (last (columns m))) v) life dic = Inr m'"
    by (auto split: if_splits option.splits)
  from Cons.IH [OF run] show ?case
    by (auto simp: set_index_loc_set distinct_index_loc_set)
qed

lemma setInitial_rows_cells:
  assumes "setInitial_rows ys m life dic = Inr m'" "distinct ys"
  shows "cells m' r c =
           (if r \<in> set ys then
              (if c \<in> set (columns m) \<and> r \<le> c \<and> c \<le> min (r + life - 1) (last (columns m))
               then dic r
               else if r \<in> set (index m) then cells m r c else None)
            else cells m r c)"
  using assms
proof (induction ys arbitrary: m)
  case Nil
  then show ?case by simp
next
  case (Cons y ys)
  from Cons.prems obtain v where v: "dic y = Some v"
    and run: "setInitial_rows ys (loc_set m y y (min (y + life - 1) (last (columns m))) v) life dic = Inr m'"
    by (auto split: if_splits option.splits)
  have y_notin: "y \<notin> set ys" and d: "distinct ys" using Cons.prems by auto
  note ih = Cons.IH [OF run d]
  show ?case
  proof (cases "r = y")
    case True
    then show ?thesis using ih y_notin v by (simp add: cells_loc_set)
  next
    case False
    then show ?thesis using ih
      by (simp add: cells_loc_set columns_loc_set set_index_loc_set)
  qed
qed

lemma rev_map_upto_nat:
  fixes g :: "int \<Rightarrow> 'a" and b :: int
  shows "rev (map g [0..int k - 1]) = map (\<lambda>y. g (b - y)) [b - int k + 1..b]"
proof (induction k)
  case 0
  then show ?case by simp
next
  case (Suc k)
  have l: "[0..int (Suc k) - 1] = [0..int k - 1] @ [int k]"
    using upto_rec2 [of 0 "int k"] by simp
  have r: "[b - int (Suc k) + 1..b] = (b - int k) # [b - int k + 1..b]"
    using upto_rec1 [of "b - int k" b] by simp
  show ?case unfolding l r using Suc.IH by simp
qed

lemma rev_map_upto:
  fixes g :: "int \<Rightarrow> 'a" and b n :: int
  assumes "0 \<le> n"
  shows "rev (map g [0..n - 1]) = map (\<lambda>y. g (b - y)) [b - n + 1..b]"
  using rev_map_upto_nat [of g "nat n" b] assms by simp

lemma triangle_series_years:
  assumes "0 \<le> life"
  shows "triangle_series cap life =
         map (\<lambda>y. triangle_height cap life (y_start - y)) [y_start - life + 1..y_start]"
  unfolding triangle_series_def by (rule rev_map_upto [OF assms])

lemma triangle_dic_eq:
  assumes "0 \<le> life"
  shows "triangle_dic y_start cap life y =
         (if y_start - life + 1 \<le> y \<and> y \<le> y_start
          then Some (triangle_height cap life (y_start - y)) else None)"
  unfolding triangle_dic_def triangle_series_years [OF assms, of cap y_start]
  by (simp add: map_of_zip_map)

lemma sum_triangle_nat:
  "sum_list (map (\<lambda>i. h - of_int i * d) [0..int k - 1]) =
     of_nat k * h - d * of_nat k * (of_nat k - 1) / (2::rat)"
proof (induction k)
  case 0
  then show ?case by simp
next
  case (Suc k)
  have l: "[0..int (Suc k) - 1] = [0..int k - 1] @ [int k]"
    using upto_rec2 [of 0 "int k"] by simp
  show ?case unfolding l using Suc.IH by (simp add: field_simps)
qed

lemma sum_triangle_series:
  assumes "0 < life"
  shows "sum_list (triangle_series cap life) = cap"
proof -
  define k where "k = nat life"
  have life: "life = int k" and kpos: "0 < k" using assms by (auto simp: k_def)
  have nz: "(of_nat k :: rat) \<noteq> 0" using kpos by simp
  have "sum_list (triangle_series cap life) =
        sum_list (map (triangle_height cap life) [0..int k - 1])"
    unfolding triangle_series_def life by (simp add: rev_map [symmetric] del: rev_map)
  also have "\<dots> = of_nat k * (2 * (cap / of_nat k) - 2 * (cap / of_nat k) / of_nat k / 2)
      - (2 * (cap / of_nat k) / of_nat k) * of_nat k * (of_nat k - 1) / 2"
    unfolding triangle_height_def Let_def life
    using sum_triangle_nat [of "2 * (cap / of_nat k) - 2 * (cap / of_nat k) / of_nat k / 2"
        "2 * (cap / of_nat k) / of_nat k" k]
    by simp
  also have "\<dots> = cap"
    using nz by (simp add: field_simps)
  finally show ?thesis .
qed

lemma triangle_height_mono:
  assumes "0 < life" "0 \<le> cap" "i \<le> j"
  shows "triangle_height cap life j \<le> triangle_height cap life i"
proof -
  define d where "d = 2 * (cap / of_int life) / (of_int life :: rat)"
  have "0 \<le> d"
    using assms(1,2) by (simp add: d_def)
  moreover have "(of_int i :: rat) \<le> of_int j" using assms(3) by simp
  ultimately have "of_int i * d \<le> of_int j * d"
    by (rule mult_right_mono [rotated])
  then show ?thesis
    unfolding triangle_height_def Let_def d_def [symmetric] by simp
qed

lemma triangle_height_last:
  assumes "0 < life"
  shows "triangle_height cap life (life - 1) = cap / of_int life / of_int life"
proof -
  have "(of_int life :: rat) \<noteq> 0" using assms by simp
  then show ?thesis
    unfolding triangle_height_def Let_def by (simp add: field_simps)
qed

lemma triangle_height_nonneg:
  assumes "0 < life" "0 \<le> cap" "i \<le> life - 1"
  shows "0 \<le> triangle_height cap life i"
proof -
  have "0 \<le> cap / of_int life / of_int life" using assms(1,2) by simp
  also have "\<dots> = triangle_height cap life (life - 1)"
    by (rule triangle_height_last [OF assms(1), symmetric])
  also have "\<dots> \<le> triangle_height cap life i"
    by (rule triangle_height_mono [OF assms(1,2,3)])
  finally show ?thesis .
qed

lemma last_upto_int: "i \<le> j \<Longrightarrow> last [i..j] = (j::int)"
  using upto_rec2 [of i j] by simp

lemma initial_dic:
  assumes "0 < life" "y_start - life + 1 \<le> y" "y \<le> y_start"
  shows "(if is_triangle fuel then triangle_dic y_start cap life
          else (\<lambda>y. Some (cap / of_int life))) y
         = Some (initial_value fuel cap life (y_start - y))"
  using assms by (simp add: initial_value_def triangle_dic_eq)

lemma setInitial_Flat_unfold:
  assumes "index m = i0 # is" "life \<noteq> 0"
  shows "setInitial_Flat m ((y_start, cap) # rest) life =
         setInitial_rows [i0..y_start] m life (\<lambda>y. Some (cap / of_int life))"
  using assms by (simp add: setInitial_Flat_def)

lemma setInitial_Triangle_unfold:
  assumes "index m = i0 # is" "life \<noteq> 0"
  shows "setInitial_Triangle m ((y_start, cap) # rest) life =
         setInitial_rows [i0..y_start] m life (triangle_dic y_start cap life)"
  using assms by (simp add: setInitial_Triangle_def)

lemma init_matrix_unfold:
  assumes "dfs = (y_start, cap) # rest" "0 < life" "y_start - life + 1 < fst (last dfs)"
  shows "init_matrix fuel dfs life =
         setInitial_rows [y_start - life + 1..y_start]
           (new_mat [y_start - life + 1..fst (last dfs) + life - 1]
                    [y_start - life + 1..fst (last dfs) - 1]) life
           (if is_triangle fuel then triangle_dic y_start cap life
            else (\<lambda>y. Some (cap / of_int life)))"
proof -
  define y_end where "y_end = fst (last dfs)"
  define m0 where "m0 = new_mat [y_start - life + 1..y_end + life - 1] [y_start - life + 1..y_end - 1]"
  have "[y_start - life + 1..y_end - 1] =
             (y_start - life + 1) # [y_start - life + 1 + 1..y_end - 1]"
    using assms(3) unfolding y_end_def by (intro upto_rec1) simp
  then have idx: "index m0 = (y_start - life + 1) # [y_start - life + 1 + 1..y_end - 1]"
    by (simp add: m0_def new_mat_def)
  have nz: "life \<noteq> 0" using assms(2) by simp
  have "init_matrix fuel dfs life =
          (if is_triangle fuel then setInitial_Triangle m0 dfs life else setInitial_Flat m0 dfs life)"
    unfolding init_matrix_def m0_def y_end_def assms(1) by (simp add: Let_def)
  also have "\<dots> = setInitial_rows [y_start - life + 1..y_start] m0 life
           (if is_triangle fuel then triangle_dic y_start cap life
            else (\<lambda>y. Some (cap / of_int life)))"
    unfolding assms(1)
    using setInitial_Flat_unfold [OF idx nz] setInitial_Triangle_unfold [OF idx nz] by simp
  finally show ?thesis unfolding m0_def y_end_def .
qed

lemma init_matrix_result:
  assumes "dfs = (y_start, cap) # rest" "0 < life" "y_start - life + 1 < fst (last dfs)"
  shows "\<exists>m. init_matrix fuel dfs life = Inr m \<and>
           columns m = [y_start - life + 1..fst (last dfs) + life - 1] \<and>
           set (index m) = {y_start - life + 1..max (fst (last dfs) - 1) y_start} \<and>
           distinct (index m) \<and>
           (\<forall>r c. cells m r c =
              (if y_start - life + 1 \<le> r \<and> r \<le> y_start \<and> r \<le> c \<and> c \<le> r + life - 1
                  \<and> c \<le> fst (last dfs) + life - 1
               then Some (initial_value fuel cap life (y_start - r)) else None))"
proof -
  define lo where "lo = y_start - life + 1"
  define y_end where "y_end = fst (last dfs)"
  define m0 where "m0 = new_mat [lo..y_end + life - 1] [lo..y_end - 1]"
  define dic where "dic = (if is_triangle fuel then triangle_dic y_start cap life
            else (\<lambda>y. Some (cap / of_int life)))"
  have lt: "lo < y_end" using assms(3) by (simp add: lo_def y_end_def)
  have lo_le: "lo \<le> y_start" using assms(2) by (simp add: lo_def)
  have unf: "init_matrix fuel dfs life = setInitial_rows [lo..y_start] m0 life dic"
    unfolding lo_def y_end_def m0_def dic_def by (rule init_matrix_unfold [OF assms])
  have cols0: "columns m0 = [lo..y_end + life - 1]" and idx0: "index m0 = [lo..y_end - 1]"
    and cells0: "\<And>r c. cells m0 r c = None"
    by (simp_all add: m0_def new_mat_def)
  have ne: "columns m0 \<noteq> []" using lt assms(2) by (simp add: cols0)
  have lastc: "last [lo..y_end + life - 1] = y_end + life - 1"
    using lt assms(2) by (intro last_upto_int) simp
  have dic: "\<And>y. y \<in> set [lo..y_start] \<Longrightarrow> dic y = Some (initial_value fuel cap life (y_start - y))"
    unfolding dic_def using initial_dic [OF assms(2)] by (simp add: lo_def)
  then have "\<forall>y\<in>set [lo..y_start]. dic y \<noteq> None" by simp
  from setInitial_rows_succeeds [OF ne this]
  obtain m where run: "setInitial_rows [lo..y_start] m0 life dic = Inr m" by blast
  have c: "columns m = [lo..y_end + life - 1]"
    using setInitial_rows_columns [OF run] cols0 by simp
  have "set (index m) = {lo..y_end - 1} \<union> {lo..y_start}"
    using setInitial_rows_index [OF run] by (simp add: idx0)
  also have "\<dots> = {lo..max (y_end - 1) y_start}"
    using lo_le lt by (simp add: ivl_disj_un max_def Un_absorb1 Un_absorb2)
  finally have i: "set (index m) = {lo..max (y_end - 1) y_start}" .
  have di: "distinct (index m)"
    using setInitial_rows_index [OF run] by (simp add: idx0)
  have raw: "\<And>r c. cells m r c =
           (if r \<in> set [lo..y_start] then
              (if c \<in> set (columns m0) \<and> r \<le> c \<and> c \<le> min (r + life - 1) (last (columns m0))
               then dic r else None)
            else None)"
    using setInitial_rows_cells [OF run] by (simp add: cells0)
  have cl: "\<forall>r c. cells m r c =
              (if lo \<le> r \<and> r \<le> y_start \<and> r \<le> c \<and> c \<le> r + life - 1 \<and> c \<le> y_end + life - 1
               then Some (initial_value fuel cap life (y_start - r)) else None)"
  proof (intro allI)
    fix r c
    show "cells m r c =
              (if lo \<le> r \<and> r \<le> y_start \<and> r \<le> c \<and> c \<le> r + life - 1 \<and> c \<le> y_end + life - 1
               then Some (initial_value fuel cap life (y_start - r)) else None)"
    proof (cases "lo \<le> r \<and> r \<le> y_start")
      case True
      then have d: "dic r = Some (initial_value fuel cap life (y_start - r))"
        using dic [of r] by simp
      have mem: "r \<in> set [lo..y_start]" using True by simp
      have cond: "(c \<in> set (columns m0) \<and> r \<le> c \<and> c \<le> min (r + life - 1) (last (columns m0)))
            = (lo \<le> c \<and> c \<le> y_end + life - 1 \<and> r \<le> c \<and> c \<le> r + life - 1)"
        unfolding cols0 lastc by auto
      have "cells m r c =
              (if lo \<le> c \<and> c \<le> y_end + life - 1 \<and> r \<le> c \<and> c \<le> r + life - 1
               then dic r else None)"
        using raw [of r c] unfolding cond by (simp only: mem if_True)
      also have "\<dots> = (if lo \<le> r \<and> r \<le> y_start \<and> r \<le> c \<and> c \<le> r + life - 1 \<and> c \<le> y_end + life - 1
               then Some (initial_value fuel cap life (y_start - r)) else None)"
        using True d by auto
      finally show ?thesis .
    next
      case False
      then have mem: "r \<notin> set [lo..y_start]" by simp
      have "cells m r c = None"
        using raw [of r c] by (simp only: mem if_False)
      then show ?thesis using False by auto
    qed
  qed
  show ?thesis
    using unf run c i di cl unfolding lo_def y_end_def by simp
qed

lemma sum_initial_values:
  assumes "0 < life"
  shows "sum_list (map (\<lambda>r. initial_value fuel cap life (y_start - r)) [y_start - life + 1..y_start]) = cap"
proof (cases "is_triangle fuel")
  case True
  have "map (\<lambda>r. initial_value fuel cap life (y_start - r)) [y_start - life + 1..y_start]
        = triangle_series cap life"
    using True assms by (simp add: initial_value_def triangle_series_years [of life cap y_start])
  then show ?thesis using sum_triangle_series [OF assms] by simp
next
  case False
  have "(of_int life :: rat) \<noteq> 0" using assms by simp
  then show ?thesis using False assms
    by (simp add: initial_value_def sum_list_triv)
qed

lemma init_matrix_col_sum:
  assumes "dfs = (y_start, cap) # rest" "0 < life" "y_start - life + 1 < fst (last dfs)"
    and "init_matrix fuel dfs life = Inr m"
  shows "col_sum m y_start = cap"
proof -
  from init_matrix_result [OF assms(1,2,3), of fuel] assms(4)
  have i: "set (index m) = {y_start - life + 1..max (fst (last dfs) - 1) y_start}"
    and d: "distinct (index m)"
    and cl: "\<And>r c. cells m r c =
              (if y_start - life + 1 \<le> r \<and> r \<le> y_start \<and> r \<le> c \<and> c \<le> r + life - 1
                  \<and> c \<le> fst (last dfs) + life - 1
               then Some (initial_value fuel cap life (y_start - r)) else None)"
    by auto
  have "col_sum m y_start = sum (\<lambda>r. cell_val (cells m r y_start)) (set (index m))"
    unfolding col_sum_def by (rule sum_list_distinct_conv_sum_set [OF d])
  also have "\<dots> = sum (\<lambda>r. cell_val (cells m r y_start)) {y_start - life + 1..y_start}"
    unfolding i by (rule sum.mono_neutral_right) (auto simp: cl cell_val_def)
  also have "\<dots> = sum (\<lambda>r. initial_value fuel cap life (y_start - r)) {y_start - life + 1..y_start}"
    using assms(2,3) by (intro sum.cong) (auto simp: cl cell_val_def)
  also have "\<dots> = sum_list (map (\<lambda>r. initial_value fuel cap life (y_start - r)) [y_start - life + 1..y_start])"
    by (simp add: sum_list_distinct_conv_sum_set)
  also have "\<dots> = cap" by (rule sum_initial_values [OF assms(2)])
  finally show ?thesis .
qed

lemma init_matrix_empty_index:
  assumes "dfs = (y_start, cap) # rest" "0 < life" "fst (last dfs) \<le> y_start - life + 1"
  shows "init_matrix fuel dfs life = Inl IndexError"
proof -
  define y_end where "y_end = fst (last dfs)"
  have e: "[y_start - life + 1..y_end - 1] = []"
    using assms(3) by (simp add: y_end_def)
  have nz: "life \<noteq> 0" using assms(2) by simp
  show ?thesis
    unfolding init_matrix_def assms(1) list.case prod.case Let_def
    unfolding assms(1) [symmetric] y_end_def [symmetric]
    by (simp add: setInitial_Triangle_def setInitial_Flat_def new_mat_def assms(1) e nz)
qed

lemma init_matrix_Inr_nonempty:
  assumes "dfs = (y_start, cap) # rest" "0 < life" "init_matrix fuel dfs life = Inr m"
  shows "y_start - life + 1 < fst (last dfs)"
proof (rule ccontr)
  assume "\<not> y_start - life + 1 < fst (last dfs)"
  then have "fst (last dfs) \<le> y_start - life + 1" by simp
  from init_matrix_empty_index [OF assms(1,2) this, of fuel] assms(3) show False by simp
qed

subsection \<open>The allocator\<close>

lemma reduceVintages_shape:
  "reduceVintages addition m life y_pres = Inr m' \<Longrightarrow>
   index m' = index m \<and> columns m' = columns m"
  unfolding reduceVintages_def using reduce_rows_shape by blast

lemma reduceVintages_succeeds:
  "y_pres \<in> set (columns m) \<Longrightarrow> \<exists>m'. reduceVintages addition m life y_pres = Inr m'"
  unfolding reduceVintages_def by (rule reduce_rows_succeeds)

lemma reduceVintages_row:
  assumes "reduceVintages addition m life y_pres = Inr m'" "addition < 0" "distinct (index m)"
  shows "(\<forall>c. cells m' r c = cells m r c) \<or>
         (r \<in> set (index m) \<and> (\<exists>R w. cells m r y_pres = Some R \<and> 0 < R \<and> 0 \<le> w \<and> w < R \<and>
            (\<forall>c. cells m' r c =
               (if c \<in> set (columns m) \<and> y_pres \<le> c \<and> c \<le> r + life - 1 then Some w
                else cells m r c))))"
  using reduce_rows_row [OF assms(1) [unfolded reduceVintages_def] assms(2,3)] by simp

lemma setHistorical_year_cases:
  assumes "setHistorical_year m df life year = Inr m'"
  obtains (gap) "map_of df year = None" "m' = loc_set m year year (year + life - 1) 0"
  | (build) cap where "map_of df year = Some cap" "year \<in> set (columns m)"
      "0 \<le> cap - col_sum m year"
      "m' = loc_set m year year (year + life - 1) (cap - col_sum m year)"
  | (retire) cap where "map_of df year = Some cap" "year \<in> set (columns m)"
      "cap - col_sum m year < 0"
      "reduceVintages (cap - col_sum m year) (loc_set m year year (year + life - 1) 0) life year
         = Inr m'"
  using assms unfolding setHistorical_year_def
  by (auto simp: Let_def split: option.splits if_splits)

lemma setHistorical_year_shape:
  assumes "setHistorical_year m df life year = Inr m'"
  shows "columns m' = columns m \<and> set (index m') = insert year (set (index m)) \<and>
         (distinct (index m) \<longrightarrow> distinct (index m'))"
  using assms
proof (cases rule: setHistorical_year_cases)
  case gap
  then show ?thesis
    by (simp add: columns_loc_set set_index_loc_set distinct_index_loc_set)
next
  case (build cap)
  then show ?thesis
    by (simp add: columns_loc_set set_index_loc_set distinct_index_loc_set)
next
  case (retire cap)
  from reduceVintages_shape [OF retire(4)] show ?thesis
    by (simp add: columns_loc_set set_index_loc_set distinct_index_loc_set)
qed

lemma setHistorical_year_succeeds:
  assumes "map_of df year \<noteq> None \<longrightarrow> year \<in> set (columns m)"
  shows "\<exists>m'. setHistorical_year m df life year = Inr m'"
proof (cases "map_of df year")
  case None
  then show ?thesis by (simp add: setHistorical_year_def)
next
  case (Some cap)
  with assms have col: "year \<in> set (columns m)" by simp
  then have "year \<in> set (columns (loc_set m year year (year + life - 1) 0))"
    by (simp add: columns_loc_set)
  from reduceVintages_succeeds [OF this] Some col show ?thesis
    by (auto simp: setHistorical_year_def Let_def)
qed

lemma setHistorical_while_rule:
  assumes "setHistorical_while m df life year ymax = Inr m'"
    and "I year m"
    and "\<And>y m1 m2. year \<le> y \<Longrightarrow> y \<le> ymax \<Longrightarrow> I y m1 \<Longrightarrow>
           setHistorical_year m1 df life y = Inr m2 \<Longrightarrow> I (y + 1) m2"
  shows "I (max year (ymax + 1)) m'"
  using assms
proof (induction m df life year ymax rule: setHistorical_while.induct)
  case (1 m df life year ymax)
  show ?case
  proof (cases "year \<le> ymax")
    case False
    then have "m' = m" using "1.prems"(1) by (simp add: setHistorical_while.simps)
    moreover have "max year (ymax + 1) = year" using False by simp
    ultimately show ?thesis using "1.prems"(2) by simp
  next
    case True
    then obtain m1 where step: "setHistorical_year m df life year = Inr m1"
      and rest: "setHistorical_while m1 df life (year + 1) ymax = Inr m'"
      using "1.prems"(1) by (auto simp: setHistorical_while.simps [of m] split: sum.splits)
    have i1: "I (year + 1) m1"
      using "1.prems"(3) [OF _ True "1.prems"(2) step] by simp
    have "I (max (year + 1) (ymax + 1)) m'"
    proof (rule "1.IH" [OF True step rest i1])
      fix y m1 m2
      assume "year + 1 \<le> y" "y \<le> ymax" "I y m1" "setHistorical_year m1 df life y = Inr m2"
      then show "I (y + 1) m2" using "1.prems"(3) [of y m1 m2] by simp
    qed
    moreover have "max (year + 1) (ymax + 1) = max year (ymax + 1)" using True by simp
    ultimately show ?thesis by simp
  qed
qed

lemma setHistorical_while_succeeds:
  assumes "\<forall>y. year \<le> y \<and> y \<le> ymax \<and> map_of df y \<noteq> None \<longrightarrow> y \<in> set (columns m)"
  shows "\<exists>m'. setHistorical_while m df life year ymax = Inr m'"
  using assms
proof (induction m df life year ymax rule: setHistorical_while.induct)
  case (1 m df life year ymax)
  show ?case
  proof (cases "year \<le> ymax")
    case False
    then show ?thesis by (simp add: setHistorical_while.simps)
  next
    case True
    have "map_of df year \<noteq> None \<longrightarrow> year \<in> set (columns m)"
      using "1.prems" True by simp
    from setHistorical_year_succeeds [OF this]
    obtain m1 where step: "setHistorical_year m df life year = Inr m1" by blast
    have c: "columns m1 = columns m" using setHistorical_year_shape [OF step] by simp
    have "\<exists>m'. setHistorical_while m1 df life (year + 1) ymax = Inr m'"
      by (rule "1.IH" [OF True step]) (use "1.prems" c in auto)
    then show ?thesis using True step by (simp add: setHistorical_while.simps [of m])
  qed
qed

lemma setHistorical_while_last:
  assumes "year \<le> Y"
  shows "setHistorical_while m df life year Y =
         (case setHistorical_while m df life year (Y - 1) of
            Inl e \<Rightarrow> Inl e
          | Inr m' \<Rightarrow> setHistorical_year m' df life Y)"
  using assms
proof (induction m df life year "Y - 1" rule: setHistorical_while.induct)
  case (1 m df life year)
  show ?case
  proof (cases "year = Y")
    case True
    then show ?thesis
      by (simp add: setHistorical_while.simps [of m df life Y] setHistorical_while.simps [of _ df life "Y + 1"]
          split: sum.splits)
  next
    case False
    with "1.prems" have lt: "year \<le> Y - 1" by simp
    show ?thesis
    proof (cases "setHistorical_year m df life year")
      case (Inl e)
      then show ?thesis using lt "1.prems"
        by (simp add: setHistorical_while.simps [of m])
    next
      case (Inr m1)
      have "setHistorical_while m1 df life (year + 1) Y =
         (case setHistorical_while m1 df life (year + 1) (Y - 1) of
            Inl e \<Rightarrow> Inl e
          | Inr m' \<Rightarrow> setHistorical_year m' df life Y)"
        by (rule "1.hyps" [OF lt Inr]) (use lt in simp)
      then show ?thesis using lt "1.prems" Inr
        by (simp add: setHistorical_while.simps [of m])
    qed
  qed
qed

subsection \<open>Partitions in year order\<close>

lemma sorted_years_last:
  fixes xs :: "(int \<times> 'a) list"
  shows "sorted_wrt (<) (map fst xs) \<Longrightarrow> x \<in> set xs \<Longrightarrow> fst x \<le> fst (last xs)"
proof (induction xs)
  case Nil
  then show ?case by simp
next
  case (Cons a xs)
  show ?case
  proof (cases "xs = []")
    case True
    with Cons.prems show ?thesis by simp
  next
    case False
    then have l: "last xs \<in> set xs" by simp
    show ?thesis
    proof (cases "x = a")
      case True
      have "fst a < fst (last xs)" using Cons.prems(1) l by auto
      with True False show ?thesis by simp
    next
      case False
      with Cons show ?thesis by auto
    qed
  qed
qed

lemma sorted_years_first:
  fixes y_start :: int
  shows "sorted_wrt (<) (map fst ((y_start, c0) # rest)) \<Longrightarrow> (y, c) \<in> set rest \<Longrightarrow> y_start < y"
  by force

lemma sorted_years_distinct:
  fixes dfs :: "(int \<times> 'a) list"
  shows "sorted_wrt (<) (map fst dfs) \<Longrightarrow> distinct (map fst dfs)"
  by (simp add: strict_sorted_iff)

lemma sorted_years_lookup:
  fixes dfs :: "(int \<times> 'a) list"
  shows "sorted_wrt (<) (map fst dfs) \<Longrightarrow> (y, c) \<in> set dfs \<Longrightarrow> map_of dfs y = Some c"
  by (simp add: sorted_years_distinct)

lemma sorted_years_index_max:
  fixes dfs :: "(int \<times> rat) list"
  assumes "sorted_wrt (<) (map fst dfs)" "dfs \<noteq> []"
  shows "index_max dfs = fst (last dfs)"
proof -
  have "fst (last dfs) \<in> set (map fst dfs)" using assms(2) by simp
  moreover have "\<forall>y\<in>set (map fst dfs). y \<le> fst (last dfs)"
    using sorted_years_last [OF assms(1)] by auto
  ultimately show ?thesis
    unfolding index_max_def by (intro Max_eqI) auto
qed

lemma observed_year_bounds:
  fixes dfs :: "(int \<times> 'a) list"
  assumes "sorted_wrt (<) (map fst dfs)" "dfs = (y_start, c0) # rest" "map_of dfs y = Some c"
  shows "y_start \<le> y \<and> y \<le> fst (last dfs)"
proof -
  have in_set: "(y, c) \<in> set dfs" using assms(3) by (rule map_of_SomeD)
  have "y \<le> fst (last dfs)" using sorted_years_last [OF assms(1) in_set] by simp
  moreover have "y_start \<le> y"
  proof (cases "y = y_start")
    case False
    then have "(y, c) \<in> set rest" using in_set unfolding assms(2) by simp
    from sorted_years_first [OF assms(1) [unfolded assms(2)] this] show ?thesis by simp
  qed simp
  ultimately show ?thesis by simp
qed

subsection \<open>The matrix through the allocator loop\<close>

lemma setHistorical_year_fresh:
  assumes "setHistorical_year m df life y = Inr m'" "distinct (index m)"
    and "\<forall>r c. y \<le> r \<longrightarrow> cells m r c = None"
  shows "\<forall>r c. y + 1 \<le> r \<longrightarrow> cells m' r c = None"
  using assms(1)
proof (cases rule: setHistorical_year_cases)
  case gap
  then show ?thesis using assms(3) by (simp add: cells_loc_set)
next
  case (build cap)
  then show ?thesis using assms(3) by (simp add: cells_loc_set)
next
  case (retire cap)
  define m1 where "m1 = loc_set m y y (y + life - 1) 0"
  have d1: "distinct (index m1)" using assms(2) by (simp add: m1_def distinct_index_loc_set)
  have run: "reduceVintages (cap - col_sum m y) m1 life y = Inr m'"
    using retire(4) by (simp add: m1_def)
  show ?thesis
  proof (intro allI impI)
    fix r c
    assume r: "y + 1 \<le> r"
    then have none: "\<And>c'. cells m1 r c' = None"
      using assms(3) by (simp add: m1_def cells_loc_set)
    from reduceVintages_row [OF run retire(3) d1, of r] none
    show "cells m' r c = None" by auto
  qed
qed

lemma matrix_upto_state:
  assumes "sorted_wrt (<) (map fst dfs)" "0 < life"
    and "dfs = (y_start, c0) # (y1, c1) # rest" "y1 - 1 \<le> Y"
  shows "\<exists>m. matrix_upto fuel dfs life Y = Inr m \<and>
           columns m = [y_start - life + 1..fst (last dfs) + life - 1] \<and>
           distinct (index m) \<and>
           (\<forall>r c. Y + 1 \<le> r \<longrightarrow> cells m r c = None)"
proof -
  define cols where "cols = [y_start - life + 1..fst (last dfs) + life - 1]"
  have less: "y_start < y1" using assms(1,3) by simp
  have "y1 \<le> fst (last dfs)"
    using sorted_years_last [OF assms(1), of "(y1, c1)"] assms(3) by simp
  with less assms(2) have ne: "y_start - life + 1 < fst (last dfs)" by simp
  from init_matrix_result [OF assms(3) assms(2) ne, of fuel]
  obtain m0 where init: "init_matrix fuel dfs life = Inr m0"
    and c0: "columns m0 = cols" and d0: "distinct (index m0)"
    and cl0: "\<And>r c. cells m0 r c =
              (if y_start - life + 1 \<le> r \<and> r \<le> y_start \<and> r \<le> c \<and> c \<le> r + life - 1
                  \<and> c \<le> fst (last dfs) + life - 1
               then Some (initial_value fuel c0 life (y_start - r)) else None)"
    unfolding cols_def by blast
  have unf: "matrix_upto fuel dfs life Y = setHistorical_while m0 dfs life y1 Y"
    unfolding matrix_upto_def init by (simp add: assms(3))
  have "\<forall>y. y1 \<le> y \<and> y \<le> Y \<and> map_of dfs y \<noteq> None \<longrightarrow> y \<in> set (columns m0)"
  proof (intro allI impI)
    fix y assume "y1 \<le> y \<and> y \<le> Y \<and> map_of dfs y \<noteq> None"
    then obtain c where "map_of dfs y = Some c" by auto
    from observed_year_bounds [OF assms(1,3) this] assms(2)
    show "y \<in> set (columns m0)" by (simp add: c0 cols_def)
  qed
  from setHistorical_while_succeeds [OF this]
  obtain m where run: "setHistorical_while m0 dfs life y1 Y = Inr m" by blast
  define I where "I = (\<lambda>y (m::mat). columns m = cols \<and> distinct (index m) \<and>
                         (\<forall>r c. y \<le> r \<longrightarrow> cells m r c = None))"
  have start: "I y1 m0"
    unfolding I_def using c0 d0 less by (simp add: cl0)
  have "I (max y1 (Y + 1)) m"
  proof (rule setHistorical_while_rule [where I = I, OF run start])
    fix y m1 m2
    assume i: "I y m1" and step: "setHistorical_year m1 dfs life y = Inr m2"
    from i have d: "distinct (index m1)" and f: "\<forall>r c. y \<le> r \<longrightarrow> cells m1 r c = None"
      and c: "columns m1 = cols"
      by (simp_all add: I_def)
    show "I (y + 1) m2"
      unfolding I_def
      using setHistorical_year_shape [OF step] setHistorical_year_fresh [OF step d f] d c
      by simp
  qed
  moreover have "max y1 (Y + 1) = Y + 1" using assms(4) by simp
  ultimately show ?thesis
    using unf run unfolding I_def cols_def by simp
qed

lemma matrix_upto_step:
  assumes "dfs = (y_start, c0) # (y1, c1) # rest" "y1 \<le> Y"
  shows "matrix_upto fuel dfs life Y =
         (case matrix_upto fuel dfs life (Y - 1) of
            Inl e \<Rightarrow> Inl e
          | Inr m \<Rightarrow> setHistorical_year m dfs life Y)"
  unfolding matrix_upto_def assms(1)
  using setHistorical_while_last [OF assms(2)]
  by (simp split: sum.splits)

lemma setHistorical_while_split:
  assumes "year \<le> Y" "Y \<le> ymax"
  shows "setHistorical_while m df life year ymax =
         (case setHistorical_while m df life year (Y - 1) of
            Inl e \<Rightarrow> Inl e
          | Inr m1 \<Rightarrow>
              (case setHistorical_year m1 df life Y of
                 Inl e \<Rightarrow> Inl e
               | Inr m2 \<Rightarrow> setHistorical_while m2 df life (Y + 1) ymax))"
  using assms
proof (induction m df life year "Y - 1" rule: setHistorical_while.induct)
  case (1 m df life year)
  show ?case
  proof (cases "year = Y")
    case True
    then show ?thesis
      using "1.prems"
      by (simp add: setHistorical_while.simps [of m df life Y "Y - 1"]
          setHistorical_while.simps [of m df life Y ymax])
  next
    case False
    with "1.prems" have lt: "year \<le> Y - 1" by simp
    then have le: "year \<le> ymax" using "1.prems" by simp
    show ?thesis
    proof (cases "setHistorical_year m df life year")
      case (Inl e)
      then show ?thesis using lt le
        by (simp add: setHistorical_while.simps [of m])
    next
      case (Inr m1)
      have "setHistorical_while m1 df life (year + 1) ymax =
         (case setHistorical_while m1 df life (year + 1) (Y - 1) of
            Inl e \<Rightarrow> Inl e
          | Inr m1 \<Rightarrow>
              (case setHistorical_year m1 df life Y of
                 Inl e \<Rightarrow> Inl e
               | Inr m2 \<Rightarrow> setHistorical_while m2 df life (Y + 1) ymax))"
        by (rule "1.hyps" [OF lt Inr]) (use lt "1.prems" in simp_all)
      then show ?thesis using lt le Inr
        by (simp add: setHistorical_while.simps [of m])
    qed
  qed
qed

lemma cohort_matrix_setHistorical:
  assumes "sorted_wrt (<) (map fst (stats p))" "lifetab (fueltype p) = Some n" "0 < n"
    and "stats p = (y_start, c0) # (y1, c1) # rest"
  shows "\<exists>m0. init_matrix (fueltype p) (stats p) (int n) = Inr m0 \<and>
           cohort_matrix lifetab p = setHistorical m0 (stats p) (int n) \<and>
           setHistorical m0 (stats p) (int n)
             = setHistorical_while m0 (stats p) (int n) y1 (index_max (stats p)) \<and>
           (\<forall>Y. matrix_upto (fueltype p) (stats p) (int n) Y
                  = setHistorical_while m0 (stats p) (int n) y1 Y)"
proof -
  have npos: "0 < int n" using assms(3) by simp
  have less: "y_start < fst (last (stats p))"
  proof -
    have "y_start < y1" using assms(1,4) by simp
    moreover have "y1 \<le> fst (last (stats p))"
      using sorted_years_last [OF assms(1), of "(y1, c1)"] assms(4) by simp
    ultimately show ?thesis by simp
  qed
  then have ne: "y_start - int n + 1 < fst (last (stats p))" using npos by simp
  from init_matrix_result [OF assms(4) npos ne, of "fueltype p"]
  obtain m0 where init: "init_matrix (fueltype p) (stats p) (int n) = Inr m0" by blast
  have a: "cohort_matrix lifetab p = setHistorical m0 (stats p) (int n)"
    using init less unfolding cohort_matrix_def assms(2) by (simp add: assms(4))
  have b: "setHistorical m0 (stats p) (int n)
             = setHistorical_while m0 (stats p) (int n) y1 (index_max (stats p))"
    unfolding setHistorical_def assms(4) by simp
  have c: "\<forall>Y. matrix_upto (fueltype p) (stats p) (int n) Y
                  = setHistorical_while m0 (stats p) (int n) y1 Y"
    unfolding matrix_upto_def init by (simp add: assms(4))
  from init a b c show ?thesis by blast
qed

text \<open>
  C1, as amended. In a partition whose rows are in strictly ascending year order, with
  a positive lifetime, let \<open>Y\<close> be an observed year after the first. The initial
  distribution returns a matrix \<open>m0\<close>, and the matrix of the partition is the result of
  \<^verbatim>\<open>setHistorical\<close> on it. The loop reaches \<open>Y\<close>: run from the second observed year
  through \<open>Y - 1\<close> it returns a matrix \<open>m\<close>, and \<^verbatim>\<open>setHistorical\<close> is the step for \<open>Y\<close>
  on \<open>m\<close> followed by the loop from \<open>Y + 1\<close>. With \<open>surviving = col_sum m Y\<close> and
  \<open>addition = Capacity(Y) - surviving\<close>, whenever \<open>addition \<ge> 0\<close> the step writes
  \<open>addition\<close> into the cells of row \<open>Y\<close> over \<open>[Y, Y + life - 1]\<close>, which are all columns
  of the matrix, leaves the rest of that row unassigned, and the column sum at \<open>Y\<close> is
  then \<open>Capacity(Y)\<close>.
\<close>

theorem setHistorical_addition:
  assumes "sorted_wrt (<) (map fst (stats p))" and "lifetab (fueltype p) = Some n" and "0 < n"
    and "stats p = (y_start, c0) # (y1, c1) # rest" and "(Y, cap) \<in> set ((y1, c1) # rest)"
  shows "\<exists>m0 m. init_matrix (fueltype p) (stats p) (int n) = Inr m0 \<and>
           cohort_matrix lifetab p = setHistorical m0 (stats p) (int n) \<and>
           setHistorical_while m0 (stats p) (int n) y1 (Y - 1) = Inr m \<and>
           setHistorical m0 (stats p) (int n) =
             (case setHistorical_year m (stats p) (int n) Y of
                Inl e \<Rightarrow> Inl e
              | Inr m' \<Rightarrow>
                  setHistorical_while m' (stats p) (int n) (Y + 1) (index_max (stats p))) \<and>
           (0 \<le> cap - col_sum m Y \<longrightarrow>
              setHistorical_year m (stats p) (int n) Y
                = Inr (loc_set m Y Y (Y + int n - 1) (cap - col_sum m Y)) \<and>
              (\<forall>c. cells (loc_set m Y Y (Y + int n - 1) (cap - col_sum m Y)) Y c =
                 (if Y \<le> c \<and> c \<le> Y + int n - 1
                  then Some (cap - col_sum m Y) else None)) \<and>
              col_sum (loc_set m Y Y (Y + int n - 1) (cap - col_sum m Y)) Y = cap)"
proof -
  define dfs where "dfs = stats p"
  define life where "life = int n"
  define fuel where "fuel = fueltype p"
  have npos: "0 < life" using assms(3) by (simp add: life_def)
  have dfs: "dfs = (y_start, c0) # (y1, c1) # rest" using assms(4) by (simp add: dfs_def)
  have srt: "sorted_wrt (<) (map fst dfs)" using assms(1) by (simp add: dfs_def)
  have in_dfs: "(Y, cap) \<in> set dfs" using assms(5) dfs by simp
  have look: "map_of dfs Y = Some cap"
    by (rule sorted_years_lookup [OF srt in_dfs])
  have y1_le: "y1 \<le> Y"
  proof (cases "Y = y1")
    case False
    then have "(Y, cap) \<in> set rest" using assms(5) by auto
    then show ?thesis using srt unfolding dfs by force
  qed simp
  have bounds: "y_start \<le> Y \<and> Y \<le> fst (last dfs)"
    by (rule observed_year_bounds [OF srt dfs look])
  have imax: "index_max dfs = fst (last dfs)"
    by (rule sorted_years_index_max [OF srt]) (simp add: dfs)
  from cohort_matrix_setHistorical [where lifetab = lifetab and p = p, OF assms(1-4)]
  obtain m0 where init: "init_matrix fuel dfs life = Inr m0"
    and cm: "cohort_matrix lifetab p = setHistorical m0 dfs life"
    and sh: "setHistorical m0 dfs life = setHistorical_while m0 dfs life y1 (index_max dfs)"
    and upto: "\<And>Y. matrix_upto fuel dfs life Y = setHistorical_while m0 dfs life y1 Y"
    unfolding dfs_def life_def fuel_def by blast
  from matrix_upto_state [OF srt npos dfs, of "Y - 1" fuel] y1_le
  obtain m where before: "matrix_upto fuel dfs life (Y - 1) = Inr m"
    and cols: "columns m = [y_start - life + 1..fst (last dfs) + life - 1]"
    and dist: "distinct (index m)"
    and fresh: "\<And>r c. Y \<le> r \<Longrightarrow> cells m r c = None"
    by auto
  have loop: "setHistorical_while m0 dfs life y1 (Y - 1) = Inr m"
    using before upto by simp
  have split: "setHistorical m0 dfs life =
             (case setHistorical_year m dfs life Y of
                Inl e \<Rightarrow> Inl e
              | Inr m' \<Rightarrow> setHistorical_while m' dfs life (Y + 1) (index_max dfs))"
    unfolding sh
    using setHistorical_while_split [of y1 Y "index_max dfs" m0 dfs life] y1_le bounds imax loop
    by simp
  have col: "Y \<in> set (columns m)"
    using bounds npos by (simp add: cols)
  define addition where "addition = cap - col_sum m Y"
  define m' where "m' = loc_set m Y Y (Y + life - 1) addition"
  have row: "\<forall>c. cells m' Y c =
                 (if Y \<le> c \<and> c \<le> Y + life - 1 then Some addition else None)"
    using fresh [of Y] bounds npos by (auto simp: m'_def cells_loc_set cols)
  have "cells m' Y Y = Some addition"
    using row npos by simp
  then have sum: "col_sum m' Y = cap"
    using col_sum_loc_set_fresh [OF dist fresh [of Y Y], of Y "Y + life - 1" addition]
    by (simp add: m'_def cell_val_def addition_def)
  have step: "0 \<le> addition \<Longrightarrow> setHistorical_year m dfs life Y = Inr m'"
    by (simp add: setHistorical_year_def look col Let_def addition_def m'_def)
  show ?thesis
    using init cm loop split step row sum
    unfolding addition_def m'_def dfs_def life_def fuel_def by blast
qed

theorem setHistorical_addition_witness:
  "\<exists>m0 m. init_matrix (fueltype example_partition) (stats example_partition) (int 3) = Inr m0 \<and>
       cohort_matrix example_lifetab example_partition
         = setHistorical m0 (stats example_partition) (int 3) \<and>
       setHistorical_while m0 (stats example_partition) (int 3) 2001 (2001 - 1) = Inr m \<and>
       col_sum m 2001 = 200 / 3 \<and>
       setHistorical_year m (stats example_partition) (int 3) 2001
         = Inr (loc_set m 2001 2001 (2001 + int 3 - 1) (120 - col_sum m 2001)) \<and>
       setHistorical m0 (stats example_partition) (int 3)
         = setHistorical_while (loc_set m 2001 2001 (2001 + int 3 - 1) (120 - col_sum m 2001))
             (stats example_partition) (int 3) (2001 + 1) (index_max (stats example_partition)) \<and>
       col_sum (loc_set m 2001 2001 (2001 + int 3 - 1) (120 - col_sum m 2001)) 2001 = 120"
proof -
  have h: "sorted_wrt (<) (map fst (stats example_partition))"
    "example_lifetab (fueltype example_partition) = Some 3" "0 < (3::nat)"
    "stats example_partition = (2000, 100) # (2001, 120) # [(2002, 90)]"
    "(2001, 120) \<in> set ((2001, 120) # [(2002, 90::rat)])"
    by (simp_all add: example_partition_def example_lifetab_def)
  have e: "(case init_matrix (fueltype example_partition) (stats example_partition) (int 3) of
              Inl e \<Rightarrow> False
            | Inr m0 \<Rightarrow>
                (case setHistorical_while m0 (stats example_partition) (int 3) 2001 (2001 - 1) of
                   Inl e \<Rightarrow> False
                 | Inr m \<Rightarrow> col_sum m 2001 = 200 / 3))"
    by code_simp
  from setHistorical_addition [where lifetab = example_lifetab and p = example_partition, OF h]
  obtain m0 m where m0: "init_matrix (fueltype example_partition) (stats example_partition) (int 3) = Inr m0"
    and cm: "cohort_matrix example_lifetab example_partition
               = setHistorical m0 (stats example_partition) (int 3)"
    and m: "setHistorical_while m0 (stats example_partition) (int 3) 2001 (2001 - 1) = Inr m"
    and sp: "setHistorical m0 (stats example_partition) (int 3) =
             (case setHistorical_year m (stats example_partition) (int 3) 2001 of
                Inl e \<Rightarrow> Inl e
              | Inr m' \<Rightarrow>
                  setHistorical_while m' (stats example_partition) (int 3) (2001 + 1)
                    (index_max (stats example_partition)))"
    and imp: "0 \<le> 120 - col_sum m 2001 \<longrightarrow>
              setHistorical_year m (stats example_partition) (int 3) 2001
                = Inr (loc_set m 2001 2001 (2001 + int 3 - 1) (120 - col_sum m 2001)) \<and>
              (\<forall>c. cells (loc_set m 2001 2001 (2001 + int 3 - 1) (120 - col_sum m 2001)) 2001 c =
                 (if 2001 \<le> c \<and> c \<le> 2001 + int 3 - 1
                  then Some (120 - col_sum m 2001) else None)) \<and>
              col_sum (loc_set m 2001 2001 (2001 + int 3 - 1) (120 - col_sum m 2001)) 2001 = 120"
    by blast
  from e have c: "col_sum m 2001 = 200 / 3" unfolding m0 sum.case m .
  then have pos: "0 \<le> 120 - col_sum m 2001" by simp
  from imp pos have st: "setHistorical_year m (stats example_partition) (int 3) 2001
                = Inr (loc_set m 2001 2001 (2001 + int 3 - 1) (120 - col_sum m 2001))"
    and sm: "col_sum (loc_set m 2001 2001 (2001 + int 3 - 1) (120 - col_sum m 2001)) 2001 = 120"
    by blast+
  have sp': "setHistorical m0 (stats example_partition) (int 3)
         = setHistorical_while (loc_set m 2001 2001 (2001 + int 3 - 1) (120 - col_sum m 2001))
             (stats example_partition) (int 3) (2001 + 1) (index_max (stats example_partition))"
    unfolding sp st sum.case ..
  from m0 cm m c st sp' sm show ?thesis by blast
qed

text \<open>
  The rows 2000, 2002, 2001 with a life of three years. The loop starts at the year of
  the second row, 2002, and ends at the largest year, 2002. The observed year 2001 gets
  no step and no row, and the column sum at 2001 is what the initial distribution left
  there, not the observed 120.
\<close>

theorem setHistorical_addition_unordered:
  "(2001, 120) \<in> set (tl (stats unordered_partition)) \<and>
   fst (stats unordered_partition ! 1) = 2002 \<and>
   index_max (stats unordered_partition) = 2002 \<and>
   (case cohort_matrix example_lifetab unordered_partition of
      Inl e \<Rightarrow> False
    | Inr m \<Rightarrow> index m = [1998, 1999, 2000, 2002] \<and> cells m 2001 2001 = None \<and>
               col_sum m 2001 = 200 / 3)"
  by code_simp

subsection \<open>Non-negative cells\<close>

lemma nonneg_new_mat: "nonneg (new_mat cols idx)"
  by (simp add: nonneg_def new_mat_def)

lemma nonneg_loc_set:
  assumes "nonneg m" "0 \<le> v"
  shows "nonneg (loc_set m y a b v)"
  using assms
  by (auto simp: nonneg_def cells_loc_set columns_loc_set set_index_loc_set split: option.splits)

lemma setInitial_rows_nonneg:
  assumes "setInitial_rows ys m life dic = Inr m'" "nonneg m"
    and "\<forall>y\<in>set ys. \<forall>v. dic y = Some v \<longrightarrow> 0 \<le> v"
  shows "nonneg m'"
  using assms
proof (induction ys arbitrary: m)
  case Nil
  then show ?case by simp
next
  case (Cons y ys)
  from Cons.prems(1) obtain v where v: "dic y = Some v"
    and run: "setInitial_rows ys (loc_set m y y (min (y + life - 1) (last (columns m))) v) life dic = Inr m'"
    by (auto split: if_splits option.splits)
  have "0 \<le> v" using Cons.prems(3) v by simp
  from Cons.IH [OF run nonneg_loc_set [OF Cons.prems(2) this]] Cons.prems(3)
  show ?case by simp
qed

lemma init_matrix_nonneg:
  assumes "init_matrix fuel dfs life = Inr m" "dfs = (y_start, cap) # rest" "0 \<le> cap" "0 < life"
  shows "nonneg m"
proof -
  have ne: "y_start - life + 1 < fst (last dfs)"
    by (rule init_matrix_Inr_nonempty [OF assms(2,4,1)])
  define dic where "dic = (if is_triangle fuel then triangle_dic y_start cap life
            else (\<lambda>y. Some (cap / of_int life)))"
  have run: "setInitial_rows [y_start - life + 1..y_start]
           (new_mat [y_start - life + 1..fst (last dfs) + life - 1]
                    [y_start - life + 1..fst (last dfs) - 1]) life dic = Inr m"
    using init_matrix_unfold [OF assms(2,4) ne, of fuel] assms(1) by (simp add: dic_def)
  have "\<forall>y\<in>set [y_start - life + 1..y_start]. \<forall>v. dic y = Some v \<longrightarrow> 0 \<le> v"
  proof (intro ballI allI impI)
    fix y v
    assume y: "y \<in> set [y_start - life + 1..y_start]" and d: "dic y = Some v"
    show "0 \<le> v"
    proof (cases "is_triangle fuel")
      case True
      then have "v = triangle_height cap life (y_start - y)"
        using d y assms(4) by (simp add: dic_def triangle_dic_eq)
      moreover have "0 \<le> triangle_height cap life (y_start - y)"
        using y by (intro triangle_height_nonneg [OF assms(4,3)]) simp
      ultimately show ?thesis by simp
    next
      case False
      then have "v = cap / of_int life" using d by (simp add: dic_def)
      then show ?thesis using assms(3,4) by simp
    qed
  qed
  from setInitial_rows_nonneg [OF run nonneg_new_mat this] show ?thesis .
qed

lemma reduce_rows_nonneg:
  assumes "reduce_rows rs addition m life y_pres = Inr m'" "nonneg m"
  shows "nonneg m'"
  using assms
proof (induction rs arbitrary: addition m)
  case Nil
  then show ?case by simp
next
  case (Cons x rs)
  have col: "y_pres \<in> set (columns m)"
    using Cons.prems(1) by (auto split: if_splits)
  consider (skip) "\<not> is_pos (cells m x y_pres)"
    | (full) R where "cells m x y_pres = Some R" "0 < R" "\<bar>addition\<bar> > R"
    | (part) R where "cells m x y_pres = Some R" "0 < R" "\<not> \<bar>addition\<bar> > R"
    by (cases "cells m x y_pres") (auto simp: is_pos_def)
  then show ?case
  proof cases
    case skip
    then have "reduce_rows rs addition m life y_pres = Inr m'"
      using Cons.prems(1) col by (auto simp: is_pos_def split: option.splits if_splits)
    from Cons.IH [OF this Cons.prems(2)] show ?thesis .
  next
    case full
    then have run: "reduce_rows rs (addition + R) (loc_set m x y_pres (x + life - 1) 0) life y_pres = Inr m'"
      using Cons.prems(1) col by simp
    have "nonneg (loc_set m x y_pres (x + life - 1) 0)"
      by (rule nonneg_loc_set [OF Cons.prems(2)]) simp
    from Cons.IH [OF run this] show ?thesis .
  next
    case part
    then have res: "m' = loc_set m x y_pres (x + life - 1) (R + addition)"
      using Cons.prems(1) col by simp
    have "0 \<le> R + addition" using part(3) by simp
    from nonneg_loc_set [OF Cons.prems(2) this] res show ?thesis by simp
  qed
qed

lemma reduceVintages_nonneg:
  "reduceVintages addition m life y_pres = Inr m' \<Longrightarrow> nonneg m \<Longrightarrow> nonneg m'"
  unfolding reduceVintages_def by (rule reduce_rows_nonneg)

lemma setHistorical_year_nonneg:
  assumes "setHistorical_year m df life year = Inr m'" "nonneg m"
  shows "nonneg m'"
  using assms(1)
proof (cases rule: setHistorical_year_cases)
  case gap
  then show ?thesis using nonneg_loc_set [OF assms(2), of 0] by simp
next
  case (build cap)
  then show ?thesis using nonneg_loc_set [OF assms(2)] by simp
next
  case (retire cap)
  have "nonneg (loc_set m year year (year + life - 1) 0)"
    by (rule nonneg_loc_set [OF assms(2)]) simp
  from reduceVintages_nonneg [OF retire(4) this] show ?thesis .
qed

lemma setHistorical_while_nonneg:
  assumes "setHistorical_while m df life year ymax = Inr m'" "nonneg m"
  shows "nonneg m'"
  using setHistorical_while_rule [where I = "\<lambda>_. nonneg", OF assms]
    setHistorical_year_nonneg by blast

lemma matrix_upto_nonneg:
  assumes "matrix_upto fuel dfs life Y = Inr m" "dfs = (y_start, cap) # rest" "0 \<le> cap" "0 < life"
  shows "nonneg m"
proof -
  from assms(1) obtain m0 where init: "init_matrix fuel dfs life = Inr m0"
    by (auto simp: matrix_upto_def split: sum.splits)
  have n0: "nonneg m0" by (rule init_matrix_nonneg [OF init assms(2,3,4)])
  show ?thesis
  proof (cases rest)
    case Nil
    then show ?thesis using assms(1) n0 unfolding matrix_upto_def init by (simp add: assms(2))
  next
    case (Cons a rest')
    obtain y1 c1 where a: "a = (y1, c1)" by (cases a)
    have "setHistorical_while m0 dfs life y1 Y = Inr m"
      using assms(1) unfolding matrix_upto_def init by (simp add: assms(2) Cons a)
    from setHistorical_while_nonneg [OF this n0] show ?thesis .
  qed
qed

lemma cohort_matrix_nonneg:
  assumes "cohort_matrix lifetab p = Inr m" "\<forall>(y, c)\<in>set (stats p). 0 \<le> c"
  shows "nonneg m"
proof -
  from assms(1) obtain y_start cap rest n where st: "stats p = (y_start, cap) # rest"
    and lt: "lifetab (fueltype p) = Some n"
    by (auto simp: cohort_matrix_def split: list.splits option.splits)
  from assms(1) obtain m0 where init: "init_matrix (fueltype p) (stats p) (int n) = Inr m0"
    by (auto simp: cohort_matrix_def st lt split: sum.splits)
  have npos: "0 < int n"
  proof (rule ccontr)
    assume "\<not> 0 < int n"
    then have "int n = 0" by simp
    then show False using init
      by (auto simp: init_matrix_def st Let_def setInitial_Triangle_def setInitial_Flat_def
          split: if_splits)
  qed
  have cap: "0 \<le> cap" using assms(2) st by simp
  have n0: "nonneg m0" by (rule init_matrix_nonneg [OF init st cap npos])
  have res: "m = m0 \<or> setHistorical m0 (stats p) (int n) = Inr m"
    using assms(1) by (auto simp: cohort_matrix_def st lt init [unfolded st] split: if_splits)
  then show ?thesis
  proof
    assume "m = m0" with n0 show ?thesis by simp
  next
    assume "setHistorical m0 (stats p) (int n) = Inr m"
    then obtain y1 where "setHistorical_while m0 (stats p) (int n) y1 (index_max (stats p)) = Inr m"
      by (auto simp: setHistorical_def split: list.splits)
    from setHistorical_while_nonneg [OF this n0] show ?thesis .
  qed
qed

text \<open>
  C6. For a partition whose observed capacities are all non-negative and whose lifetime
  is positive, every assigned cell is non-negative in the initial distribution, in the
  matrix after every year of the allocator loop and in the matrix the extraction reads;
  one year of the allocator and one retirement reduction each keep a matrix without
  negative cells that way.
\<close>

theorem cells_never_negative:
  assumes "\<forall>(y, c)\<in>set (stats p). 0 \<le> c" and "lifetab (fueltype p) = Some n" and "0 < n"
  shows "(\<forall>m. init_matrix (fueltype p) (stats p) (int n) = Inr m \<longrightarrow> nonneg m) \<and>
         (\<forall>Y m. matrix_upto (fueltype p) (stats p) (int n) Y = Inr m \<longrightarrow> nonneg m) \<and>
         (\<forall>m year m'. nonneg m \<and> setHistorical_year m (stats p) (int n) year = Inr m'
            \<longrightarrow> nonneg m') \<and>
         (\<forall>m addition y_pres m'. nonneg m \<and> reduceVintages addition m (int n) y_pres = Inr m'
            \<longrightarrow> nonneg m') \<and>
         (\<forall>m. cohort_matrix lifetab p = Inr m \<longrightarrow> nonneg m)"
proof -
  have npos: "0 < int n" using assms(3) by simp
  have upto: "\<forall>Y m. matrix_upto (fueltype p) (stats p) (int n) Y = Inr m \<longrightarrow> nonneg m"
  proof (intro allI impI)
    fix Y m
    assume run: "matrix_upto (fueltype p) (stats p) (int n) Y = Inr m"
    then obtain y_start cap rest where st: "stats p = (y_start, cap) # rest"
      by (cases "stats p") (auto simp: matrix_upto_def init_matrix_def)
    have "0 \<le> cap" using assms(1) st by simp
    from matrix_upto_nonneg [OF run st this npos] show "nonneg m" .
  qed
  have init: "\<forall>m. init_matrix (fueltype p) (stats p) (int n) = Inr m \<longrightarrow> nonneg m"
  proof (intro allI impI)
    fix m
    assume run: "init_matrix (fueltype p) (stats p) (int n) = Inr m"
    then obtain y_start cap rest where st: "stats p = (y_start, cap) # rest"
      by (cases "stats p") (auto simp: init_matrix_def)
    have "0 \<le> cap" using assms(1) st by simp
    from init_matrix_nonneg [OF run st this npos] show "nonneg m" .
  qed
  show ?thesis
    using init upto setHistorical_year_nonneg reduceVintages_nonneg
      cohort_matrix_nonneg [OF _ assms(1)]
    by blast
qed

theorem cells_never_negative_witness:
  "example_lifetab (fueltype example_partition) = Some 3 \<and>
   (\<exists>m. cohort_matrix example_lifetab example_partition = Inr m \<and> nonneg m \<and>
        cells m 2001 2002 = Some (160 / 3))"
proof -
  have h1: "\<forall>(y, c)\<in>set (stats example_partition). 0 \<le> c"
    by (simp add: example_partition_def)
  have h2: "example_lifetab (fueltype example_partition) = Some 3"
    by (simp add: example_partition_def example_lifetab_def)
  have e: "(case cohort_matrix example_lifetab example_partition of
              Inl e \<Rightarrow> False | Inr m \<Rightarrow> cells m 2001 2002 = Some (160 / 3))"
    by code_simp
  then obtain m where m: "cohort_matrix example_lifetab example_partition = Inr m"
    and c: "cells m 2001 2002 = Some (160 / 3)"
    by (auto split: sum.splits)
  from cells_never_negative [of example_partition example_lifetab 3, OF h1 h2] m
  have "nonneg m" by simp
  with h2 m c show ?thesis by blast
qed

subsection \<open>Contiguous spans\<close>

lemma nonzero_loc_set:
  "nonzero (loc_set m y a b v) r c =
     (if r = y then
        (if c \<in> set (columns m) \<and> a \<le> c \<and> c \<le> b then v \<noteq> 0
         else y \<in> set (index m) \<and> nonzero m y c)
      else nonzero m r c)"
  by (simp add: nonzero_def cells_loc_set)

lemma span_okI:
  assumes "\<And>r c. r \<in> set (index m) \<Longrightarrow> c \<in> set (columns m) \<Longrightarrow> nonzero m r c \<Longrightarrow>
             r \<le> c \<and> c \<le> r + life - 1"
    and "\<And>r c1 c2 c3. r \<in> set (index m) \<Longrightarrow> c1 \<in> set (columns m) \<Longrightarrow> c3 \<in> set (columns m) \<Longrightarrow>
             nonzero m r c1 \<Longrightarrow> nonzero m r c3 \<Longrightarrow> c1 \<le> c2 \<Longrightarrow> c2 \<le> c3 \<Longrightarrow> nonzero m r c2"
  shows "span_ok life m"
  unfolding span_ok_def
proof (rule ballI)
  fix r
  assume r: "r \<in> set (index m)"
  have A: "\<forall>c\<in>set (columns m). nonzero m r c \<longrightarrow> r \<le> c \<and> c \<le> r + life - 1"
    using assms(1) [OF r] by blast
  have B: "\<forall>c1\<in>set (columns m). \<forall>c3\<in>set (columns m).
           nonzero m r c1 \<and> nonzero m r c3 \<longrightarrow> (\<forall>c2\<in>set [c1..c3]. nonzero m r c2)"
  proof (intro ballI impI)
    fix c1 c3 c2
    assume c: "c1 \<in> set (columns m)" "c3 \<in> set (columns m)"
      and n: "nonzero m r c1 \<and> nonzero m r c3" and c2: "c2 \<in> set [c1..c3]"
    from c2 have "c1 \<le> c2" "c2 \<le> c3" by simp_all
    with assms(2) [OF r c] n show "nonzero m r c2" by blast
  qed
  from A B show "(\<forall>c\<in>set (columns m). nonzero m r c \<longrightarrow> r \<le> c \<and> c \<le> r + life - 1) \<and>
        (\<forall>c1\<in>set (columns m). \<forall>c3\<in>set (columns m).
           nonzero m r c1 \<and> nonzero m r c3 \<longrightarrow> (\<forall>c2\<in>set [c1..c3]. nonzero m r c2))" ..
qed

lemma span_ok_row:
  assumes "span_ok life m" "r \<in> set (index m)"
  shows "(\<forall>c\<in>set (columns m). nonzero m r c \<longrightarrow> r \<le> c \<and> c \<le> r + life - 1) \<and>
        (\<forall>c1\<in>set (columns m). \<forall>c3\<in>set (columns m).
           nonzero m r c1 \<and> nonzero m r c3 \<longrightarrow> (\<forall>c2\<in>set [c1..c3]. nonzero m r c2))"
  using assms(1) [unfolded span_ok_def] assms(2) by (rule bspec)

lemma span_ok_bounds:
  assumes "span_ok life m" "r \<in> set (index m)" "c \<in> set (columns m)" "nonzero m r c"
  shows "r \<le> c \<and> c \<le> r + life - 1"
proof -
  from span_ok_row [OF assms(1,2)]
  have "\<forall>c\<in>set (columns m). nonzero m r c \<longrightarrow> r \<le> c \<and> c \<le> r + life - 1" ..
  from bspec [OF this assms(3)] assms(4) show ?thesis by (rule mp)
qed

lemma span_ok_between:
  assumes "span_ok life m" "r \<in> set (index m)" "c1 \<in> set (columns m)" "c3 \<in> set (columns m)"
    "nonzero m r c1" "nonzero m r c3" "c1 \<le> c2" "c2 \<le> c3"
  shows "nonzero m r c2"
proof -
  from span_ok_row [OF assms(1,2)]
  have "\<forall>c1\<in>set (columns m). \<forall>c3\<in>set (columns m).
           nonzero m r c1 \<and> nonzero m r c3 \<longrightarrow> (\<forall>c2\<in>set [c1..c3]. nonzero m r c2)" ..
  from bspec [OF bspec [OF this assms(3)] assms(4)] assms(5,6)
  have "\<forall>c2\<in>set [c1..c3]. nonzero m r c2" by blast
  moreover have "c2 \<in> set [c1..c3]" using assms(7,8) by simp
  ultimately show ?thesis by (rule bspec)
qed

lemma span_ok_new_mat: "span_ok life (new_mat cols idx)"
  by (simp add: span_ok_def new_mat_def nonzero_def)

lemma span_ok_loc_set_span:
  assumes ok: "span_ok life m" and cols: "columns m = [lo..hi]"
    and b1: "b \<le> y + life - 1" and b2: "y + life - 1 \<le> b \<or> hi \<le> b"
  shows "span_ok life (loc_set m y y b v)"
proof -
  let ?m = "loc_set m y y b v"
  have row: "nonzero ?m y c \<longleftrightarrow> y \<le> c \<and> c \<le> b \<and> v \<noteq> 0" if c: "c \<in> set (columns m)" for c
  proof (cases "y \<le> c \<and> c \<le> b")
    case True
    then show ?thesis using c by (simp add: nonzero_loc_set)
  next
    case False
    have "\<not> (y \<in> set (index m) \<and> nonzero m y c)"
    proof
      assume a: "y \<in> set (index m) \<and> nonzero m y c"
      then have "y \<le> c \<and> c \<le> y + life - 1"
        using span_ok_bounds [OF ok _ c] by simp
      moreover have "c \<le> hi" using c cols by simp
      ultimately show False using False b2 by auto
    qed
    then show ?thesis using False by (auto simp: nonzero_loc_set)
  qed
  show ?thesis
  proof (rule span_okI)
    fix r c
    assume r: "r \<in> set (index ?m)" and c: "c \<in> set (columns ?m)" and nz: "nonzero ?m r c"
    have c': "c \<in> set (columns m)" using c by (simp add: columns_loc_set)
    show "r \<le> c \<and> c \<le> r + life - 1"
    proof (cases "r = y")
      case True
      then show ?thesis using row [OF c'] nz b1 by auto
    next
      case False
      then have "r \<in> set (index m)" "nonzero m r c"
        using r nz by (auto simp: set_index_loc_set nonzero_loc_set)
      then show ?thesis using span_ok_bounds [OF ok _ c'] by simp
    qed
  next
    fix r c1 c2 c3
    assume r: "r \<in> set (index ?m)" and c1: "c1 \<in> set (columns ?m)" and c3: "c3 \<in> set (columns ?m)"
      and n1: "nonzero ?m r c1" and n3: "nonzero ?m r c3" and le: "c1 \<le> c2" "c2 \<le> c3"
    have c1': "c1 \<in> set (columns m)" and c3': "c3 \<in> set (columns m)"
      using c1 c3 by (simp_all add: columns_loc_set)
    have c2': "c2 \<in> set (columns m)" using c1' c3' le cols by simp
    show "nonzero ?m r c2"
    proof (cases "r = y")
      case True
      then show ?thesis using row [OF c1'] row [OF c2'] row [OF c3'] n1 n3 le by auto
    next
      case False
      then have "r \<in> set (index m)" "nonzero m r c1" "nonzero m r c3"
        using r n1 n3 by (auto simp: set_index_loc_set nonzero_loc_set)
      then have "nonzero m r c2"
        using span_ok_between [OF ok _ c1' c3' _ _ le] by simp
      then show ?thesis using False by (simp add: nonzero_loc_set)
    qed
  qed
qed

lemma span_ok_loc_set_suffix:
  assumes ok: "span_ok life m" and cols: "columns m = [lo..hi]"
    and r: "r \<in> set (index m)" and Y: "Y \<in> set (columns m)" and nzY: "nonzero m r Y"
  shows "span_ok life (loc_set m r Y (r + life - 1) w)"
proof -
  let ?m = "loc_set m r Y (r + life - 1) w"
  have rY: "r \<le> Y \<and> Y \<le> r + life - 1"
    by (rule span_ok_bounds [OF ok r Y nzY])
  have row: "nonzero ?m r c \<longleftrightarrow> (if Y \<le> c then c \<le> r + life - 1 \<and> w \<noteq> 0 else nonzero m r c)"
    if c: "c \<in> set (columns m)" for c
  proof (cases "Y \<le> c \<and> c \<le> r + life - 1")
    case True
    then show ?thesis using c by (simp add: nonzero_loc_set)
  next
    case False
    have "nonzero m r c \<Longrightarrow> c \<le> r + life - 1"
      using span_ok_bounds [OF ok r c] by simp
    then show ?thesis using False r by (auto simp: nonzero_loc_set)
  qed
  show ?thesis
  proof (rule span_okI)
    fix r' c
    assume r': "r' \<in> set (index ?m)" and c: "c \<in> set (columns ?m)" and nz: "nonzero ?m r' c"
    have c': "c \<in> set (columns m)" using c by (simp add: columns_loc_set)
    have r'': "r' \<in> set (index m)" using r' r by (auto simp: set_index_loc_set)
    show "r' \<le> c \<and> c \<le> r' + life - 1"
    proof (cases "r' = r")
      case True
      show ?thesis
      proof (cases "Y \<le> c")
        case True
        with \<open>r' = r\<close> row [OF c'] nz rY show ?thesis by auto
      next
        case False
        with \<open>r' = r\<close> row [OF c'] nz have "nonzero m r c" by simp
        then show ?thesis using span_ok_bounds [OF ok r c'] \<open>r' = r\<close> by simp
      qed
    next
      case False
      then have "nonzero m r' c" using nz by (simp add: nonzero_loc_set)
      then show ?thesis using span_ok_bounds [OF ok r'' c'] by simp
    qed
  next
    fix r' c1 c2 c3
    assume r': "r' \<in> set (index ?m)" and c1: "c1 \<in> set (columns ?m)" and c3: "c3 \<in> set (columns ?m)"
      and n1: "nonzero ?m r' c1" and n3: "nonzero ?m r' c3" and le: "c1 \<le> c2" "c2 \<le> c3"
    have c1': "c1 \<in> set (columns m)" and c3': "c3 \<in> set (columns m)"
      using c1 c3 by (simp_all add: columns_loc_set)
    have c2': "c2 \<in> set (columns m)" using c1' c3' le cols by simp
    have r'': "r' \<in> set (index m)" using r' r by (auto simp: set_index_loc_set)
    show "nonzero ?m r' c2"
    proof (cases "r' = r")
      case False
      then have "nonzero m r' c1" "nonzero m r' c3"
        using n1 n3 by (auto simp: nonzero_loc_set)
      then have "nonzero m r' c2"
        using span_ok_between [OF ok r'' c1' c3' _ _ le] by simp
      then show ?thesis using False by (simp add: nonzero_loc_set)
    next
      case True
      note n1' = n1 [unfolded True row [OF c1']] and n3' = n3 [unfolded True row [OF c3']]
      show ?thesis
      proof (cases "Y \<le> c2")
        case True
        then have "Y \<le> c3" using le by simp
        with n3' have "c3 \<le> r + life - 1 \<and> w \<noteq> 0" by simp
        with True le show ?thesis unfolding \<open>r' = r\<close> row [OF c2'] by simp
      next
        case False
        then have c1Y: "\<not> Y \<le> c1" using le by simp
        with n1' have old1: "nonzero m r c1" by simp
        have "nonzero m r c2"
          by (rule span_ok_between [OF ok r c1' Y old1 nzY le(1)]) (use False in simp)
        with False show ?thesis unfolding \<open>r' = r\<close> row [OF c2'] by simp
      qed
    qed
  qed
qed

lemma setInitial_rows_span:
  assumes "setInitial_rows ys m life dic = Inr m'" "span_ok life m" "columns m = [lo..hi]"
  shows "span_ok life m'"
  using assms
proof (induction ys arbitrary: m)
  case Nil
  then show ?case by simp
next
  case (Cons y ys)
  from Cons.prems(1) obtain v where ne: "columns m \<noteq> []"
    and run: "setInitial_rows ys (loc_set m y y (min (y + life - 1) (last (columns m))) v) life dic = Inr m'"
    by (auto split: if_splits option.splits)
  have "lo \<le> hi" using ne Cons.prems(3) by simp
  then have l: "last (columns m) = hi"
    unfolding Cons.prems(3) by (rule last_upto_int)
  have ok1: "span_ok life (loc_set m y y (min (y + life - 1) hi) v)"
    by (rule span_ok_loc_set_span [OF Cons.prems(2,3)]) auto
  have c1: "columns (loc_set m y y (min (y + life - 1) hi) v) = [lo..hi]"
    using Cons.prems(3) by (simp add: columns_loc_set)
  from Cons.IH [OF run [unfolded l] ok1 c1] show ?case .
qed

lemma init_matrix_span:
  assumes "init_matrix fuel dfs life = Inr m" "dfs = (y_start, cap) # rest" "0 < life"
  shows "span_ok life m \<and> columns m = [y_start - life + 1..fst (last dfs) + life - 1]"
proof -
  have ne: "y_start - life + 1 < fst (last dfs)"
    by (rule init_matrix_Inr_nonempty [OF assms(2,3,1)])
  define m0 where "m0 = new_mat [y_start - life + 1..fst (last dfs) + life - 1]
                    [y_start - life + 1..fst (last dfs) - 1]"
  have run: "setInitial_rows [y_start - life + 1..y_start] m0 life
           (if is_triangle fuel then triangle_dic y_start cap life
            else (\<lambda>y. Some (cap / of_int life))) = Inr m"
    using init_matrix_unfold [OF assms(2,3) ne, of fuel] assms(1) by (simp add: m0_def)
  have c0: "columns m0 = [y_start - life + 1..fst (last dfs) + life - 1]"
    by (simp add: m0_def new_mat_def)
  have ok0: "span_ok life m0" unfolding m0_def by (rule span_ok_new_mat)
  show ?thesis
    using setInitial_rows_span [OF run ok0 c0] setInitial_rows_columns [OF run] c0 by simp
qed

lemma reduce_rows_span:
  assumes "reduce_rows rs addition m life y_pres = Inr m'" "span_ok life m"
    and "columns m = [lo..hi]" "set rs \<subseteq> set (index m)"
  shows "span_ok life m'"
  using assms
proof (induction rs arbitrary: addition m)
  case Nil
  then show ?case by simp
next
  case (Cons x rs)
  have col: "y_pres \<in> set (columns m)"
    using Cons.prems(1) by (auto split: if_splits)
  have x_in: "x \<in> set (index m)" and sub: "set rs \<subseteq> set (index m)"
    using Cons.prems(4) by auto
  consider (skip) "\<not> is_pos (cells m x y_pres)"
    | (full) R where "cells m x y_pres = Some R" "0 < R" "\<bar>addition\<bar> > R"
    | (part) R where "cells m x y_pres = Some R" "0 < R" "\<not> \<bar>addition\<bar> > R"
    by (cases "cells m x y_pres") (auto simp: is_pos_def)
  then show ?case
  proof cases
    case skip
    then have "reduce_rows rs addition m life y_pres = Inr m'"
      using Cons.prems(1) col by (auto simp: is_pos_def split: option.splits if_splits)
    from Cons.IH [OF this Cons.prems(2,3) sub] show ?thesis .
  next
    case full
    define m1 where "m1 = loc_set m x y_pres (x + life - 1) 0"
    have run: "reduce_rows rs (addition + R) m1 life y_pres = Inr m'"
      using full Cons.prems(1) col by (simp add: m1_def)
    have nz: "nonzero m x y_pres" using full by (simp add: nonzero_def)
    have ok1: "span_ok life m1"
      unfolding m1_def by (rule span_ok_loc_set_suffix [OF Cons.prems(2,3) x_in col nz])
    have c1: "columns m1 = [lo..hi]" using Cons.prems(3) by (simp add: m1_def columns_loc_set)
    have s1: "set rs \<subseteq> set (index m1)" using sub by (auto simp: m1_def set_index_loc_set)
    from Cons.IH [OF run ok1 c1 s1] show ?thesis .
  next
    case part
    then have res: "m' = loc_set m x y_pres (x + life - 1) (R + addition)"
      using Cons.prems(1) col by simp
    have nz: "nonzero m x y_pres" using part by (simp add: nonzero_def)
    show ?thesis
      unfolding res by (rule span_ok_loc_set_suffix [OF Cons.prems(2,3) x_in col nz])
  qed
qed

lemma reduceVintages_span:
  assumes "reduceVintages addition m life y_pres = Inr m'" "span_ok life m" "columns m = [lo..hi]"
  shows "span_ok life m'"
  using reduce_rows_span [OF assms(1) [unfolded reduceVintages_def] assms(2,3)] by simp

lemma setHistorical_year_span:
  assumes "setHistorical_year m df life year = Inr m'" "span_ok life m" "columns m = [lo..hi]"
  shows "span_ok life m'"
proof -
  have w: "\<And>v. span_ok life (loc_set m year year (year + life - 1) v)"
    by (rule span_ok_loc_set_span [OF assms(2,3)]) auto
  from assms(1) show ?thesis
  proof (cases rule: setHistorical_year_cases)
    case gap
    then show ?thesis using w by simp
  next
    case (build cap)
    then show ?thesis using w by simp
  next
    case (retire cap)
    have "columns (loc_set m year year (year + life - 1) 0) = [lo..hi]"
      using assms(3) by (simp add: columns_loc_set)
    from reduceVintages_span [OF retire(4) w this] show ?thesis .
  qed
qed

lemma setHistorical_while_span:
  assumes "setHistorical_while m df life year ymax = Inr m'" "span_ok life m" "columns m = [lo..hi]"
  shows "span_ok life m'"
proof -
  define I where "I = (\<lambda>(y::int) (m::mat). span_ok life m \<and> columns m = [lo..hi])"
  have "I (max year (ymax + 1)) m'"
  proof (rule setHistorical_while_rule [where I = I, OF assms(1)])
    show "I year m" using assms(2,3) by (simp add: I_def)
  next
    fix y m1 m2
    assume "I y m1" and step: "setHistorical_year m1 df life y = Inr m2"
    then have ok: "span_ok life m1" and c: "columns m1 = [lo..hi]" by (simp_all add: I_def)
    show "I (y + 1) m2"
      unfolding I_def
      using setHistorical_year_span [OF step ok c] setHistorical_year_shape [OF step] c by simp
  qed
  then show ?thesis by (simp add: I_def)
qed

lemma matrix_upto_span:
  assumes "matrix_upto fuel dfs life Y = Inr m" "0 < life"
  shows "span_ok life m"
proof -
  from assms(1) obtain m0 where init: "init_matrix fuel dfs life = Inr m0"
    by (auto simp: matrix_upto_def split: sum.splits)
  then obtain y_start cap rest where dfs: "dfs = (y_start, cap) # rest"
    by (cases dfs) (auto simp: init_matrix_def)
  note i0 = init_matrix_span [OF init dfs assms(2)]
  show ?thesis
  proof (cases rest)
    case Nil
    then show ?thesis using assms(1) i0 unfolding matrix_upto_def init by (simp add: dfs)
  next
    case (Cons a rest')
    obtain y1 c1 where a: "a = (y1, c1)" by (cases a)
    have "setHistorical_while m0 dfs life y1 Y = Inr m"
      using assms(1) unfolding matrix_upto_def init by (simp add: dfs Cons a)
    from setHistorical_while_span [OF this] i0 show ?thesis by blast
  qed
qed

lemma cohort_matrix_span:
  assumes "cohort_matrix lifetab p = Inr m" "lifetab (fueltype p) = Some n"
  shows "span_ok (int n) m"
proof -
  from assms(1) obtain y_start cap rest where st: "stats p = (y_start, cap) # rest"
    by (auto simp: cohort_matrix_def split: list.splits option.splits)
  from assms obtain m0 where init: "init_matrix (fueltype p) (stats p) (int n) = Inr m0"
    by (auto simp: cohort_matrix_def st split: sum.splits)
  have npos: "0 < int n"
  proof (rule ccontr)
    assume "\<not> 0 < int n"
    then have "int n = 0" by simp
    then show False using init
      by (auto simp: init_matrix_def st Let_def setInitial_Triangle_def setInitial_Flat_def
          split: if_splits)
  qed
  note i0 = init_matrix_span [OF init st npos]
  have res: "m = m0 \<or> setHistorical m0 (stats p) (int n) = Inr m"
    using assms by (auto simp: cohort_matrix_def st init [unfolded st] split: if_splits)
  then show ?thesis
  proof
    assume "m = m0" with i0 show ?thesis by simp
  next
    assume "setHistorical m0 (stats p) (int n) = Inr m"
    then obtain y1 where "setHistorical_while m0 (stats p) (int n) y1 (index_max (stats p)) = Inr m"
      by (auto simp: setHistorical_def split: list.splits)
    from setHistorical_while_span [OF this] i0 show ?thesis by blast
  qed
qed

lemma reduceVintages_footprint:
  assumes "reduceVintages addition m life y_pres = Inr m'" "addition < 0" "distinct (index m)"
    and "cells m' r c \<noteq> cells m r c"
  shows "y_pres \<le> c \<and> c \<le> r + life - 1"
  using reduceVintages_row [OF assms(1,2,3), of r] assms(4)
  by (metis option.distinct(1) option.inject)

text \<open>
  C7. For a partition with a positive lifetime, in the initial distribution, in the
  matrix after every year of the allocator loop and in the matrix the extraction reads,
  the columns of every vintage row that hold a non-zero value form one run of
  consecutive years inside \<open>[vintage, vintage + life - 1]\<close>, so at most \<open>life\<close> of them.
  One year of the allocator and one retirement reduction each keep a matrix with
  consecutive columns that way, and a reduction at year \<open>Y\<close> changes cells of a row
  only within \<open>[Y, vintage + life - 1]\<close>.
\<close>

theorem spans_stay_contiguous:
  assumes "lifetab (fueltype p) = Some n" and "0 < n"
  shows "(\<forall>m. init_matrix (fueltype p) (stats p) (int n) = Inr m \<longrightarrow> span_ok (int n) m) \<and>
         (\<forall>Y m. matrix_upto (fueltype p) (stats p) (int n) Y = Inr m \<longrightarrow> span_ok (int n) m) \<and>
         (\<forall>m lo hi year m'. span_ok (int n) m \<and> columns m = [lo..hi] \<and>
             setHistorical_year m (stats p) (int n) year = Inr m' \<longrightarrow> span_ok (int n) m') \<and>
         (\<forall>m lo hi addition y_pres m'. span_ok (int n) m \<and> columns m = [lo..hi] \<and>
             reduceVintages addition m (int n) y_pres = Inr m' \<longrightarrow> span_ok (int n) m') \<and>
         (\<forall>m addition y_pres m' r c. distinct (index m) \<and> addition < 0 \<and>
             reduceVintages addition m (int n) y_pres = Inr m' \<and> cells m' r c \<noteq> cells m r c
             \<longrightarrow> y_pres \<le> c \<and> c \<le> r + int n - 1) \<and>
         (\<forall>m. cohort_matrix lifetab p = Inr m \<longrightarrow> span_ok (int n) m)"
proof -
  have npos: "0 < int n" using assms(2) by simp
  have init: "\<forall>m. init_matrix (fueltype p) (stats p) (int n) = Inr m \<longrightarrow> span_ok (int n) m"
  proof (intro allI impI)
    fix m
    assume run: "init_matrix (fueltype p) (stats p) (int n) = Inr m"
    then obtain y_start cap rest where st: "stats p = (y_start, cap) # rest"
      by (cases "stats p") (auto simp: init_matrix_def)
    from init_matrix_span [OF run st npos] show "span_ok (int n) m" by simp
  qed
  have upto: "\<forall>Y m. matrix_upto (fueltype p) (stats p) (int n) Y = Inr m \<longrightarrow> span_ok (int n) m"
    using matrix_upto_span [OF _ npos] by blast
  have year: "\<forall>m lo hi year m'. span_ok (int n) m \<and> columns m = [lo..hi] \<and>
             setHistorical_year m (stats p) (int n) year = Inr m' \<longrightarrow> span_ok (int n) m'"
    using setHistorical_year_span by blast
  have red: "\<forall>m lo hi addition y_pres m'. span_ok (int n) m \<and> columns m = [lo..hi] \<and>
             reduceVintages addition m (int n) y_pres = Inr m' \<longrightarrow> span_ok (int n) m'"
    using reduceVintages_span by blast
  have foot: "\<forall>m addition y_pres m' r c. distinct (index m) \<and> addition < 0 \<and>
             reduceVintages addition m (int n) y_pres = Inr m' \<and> cells m' r c \<noteq> cells m r c
             \<longrightarrow> y_pres \<le> c \<and> c \<le> r + int n - 1"
    using reduceVintages_footprint by blast
  have final: "\<forall>m. cohort_matrix lifetab p = Inr m \<longrightarrow> span_ok (int n) m"
    using cohort_matrix_span [of lifetab p _ n] assms(1) by blast
  from init upto year red foot final show ?thesis by (intro conjI)
qed

theorem spans_stay_contiguous_witness:
  "example_lifetab (fueltype example_partition) = Some 3 \<and>
   (\<exists>m. cohort_matrix example_lifetab example_partition = Inr m \<and> span_ok 3 m \<and>
        nonzero m 2000 2000 \<and> nonzero m 2000 2002)"
proof -
  have h: "example_lifetab (fueltype example_partition) = Some 3"
    by (simp add: example_partition_def example_lifetab_def)
  have e: "(case cohort_matrix example_lifetab example_partition of
              Inl e \<Rightarrow> False | Inr m \<Rightarrow> nonzero m 2000 2000 \<and> nonzero m 2000 2002)"
    by code_simp
  then obtain m where m: "cohort_matrix example_lifetab example_partition = Inr m"
    and c: "nonzero m 2000 2000" "nonzero m 2000 2002"
    by (auto split: sum.splits)
  from spans_stay_contiguous [of example_lifetab example_partition 3, OF h] m
  have "span_ok 3 m" by simp
  with h m c show ?thesis by blast
qed

subsection \<open>The scenario of the specification\<close>

text \<open>
  C3. One partition with a flat-policy fuel type of life 3 and the observed series
  2000: 100, 2001: 120, 2002: 90, extracted at base year 2002, gives exactly the three
  cohorts 2000: 100/3, 2001: 120 - 2 * (100/3), 2002: 90 - (120 - 100/3), in this order
  and with the labels of the partition; their capacities sum to 90.
\<close>

theorem scenario_life3:
  assumes "\<not> is_triangle f" and "lifetab f = Some 3"
  shows "derive_vintage_cohorts_from_statistics lifetab
           [\<lparr>country = c, technology = t, fueltype = f, pset = s,
             stats = [(2000, 100), (2001, 120), (2002, 90)]\<rparr>] 2002
         = Inr [\<lparr>Country = c, Technology = t, Fueltype = f, SetName = s,
                 YearCommissioned = 2000, Capacity = 100 / 3\<rparr>,
                \<lparr>Country = c, Technology = t, Fueltype = f, SetName = s,
                 YearCommissioned = 2001, Capacity = 120 - 2 * (100 / 3)\<rparr>,
                \<lparr>Country = c, Technology = t, Fueltype = f, SetName = s,
                 YearCommissioned = 2002, Capacity = 90 - (120 - 100 / 3)\<rparr>] \<and>
         sum_list (map Capacity
               [\<lparr>Country = c, Technology = t, Fueltype = f, SetName = s,
                 YearCommissioned = 2000, Capacity = 100 / 3\<rparr>,
                \<lparr>Country = c, Technology = t, Fueltype = f, SetName = s,
                 YearCommissioned = 2001, Capacity = 120 - 2 * (100 / 3)\<rparr>,
                \<lparr>Country = c, Technology = t, Fueltype = f, SetName = s,
                 YearCommissioned = 2002, Capacity = 90 - (120 - 100 / 3)\<rparr>]) = 90"
  using assms
  by (simp add: derive_vintage_cohorts_from_statistics_def partition_cohorts_def cohort_matrix_def
      init_matrix_def setInitial_Flat_def new_mat_def Let_def loc_set_def
      setHistorical_def index_max_def setHistorical_while.simps setHistorical_year_def
      col_sum_def cell_val_def extract_cohorts_def isclose0_def)

theorem scenario_life3_witness:
  "derive_vintage_cohorts_from_statistics example_lifetab [example_partition] 2002
     = Inr [\<lparr>Country = ''DE'', Technology = ''Steam'', Fueltype = ''Hard Coal'', SetName = ''PP'',
             YearCommissioned = 2000, Capacity = 100 / 3\<rparr>,
            \<lparr>Country = ''DE'', Technology = ''Steam'', Fueltype = ''Hard Coal'', SetName = ''PP'',
             YearCommissioned = 2001, Capacity = 160 / 3\<rparr>,
            \<lparr>Country = ''DE'', Technology = ''Steam'', Fueltype = ''Hard Coal'', SetName = ''PP'',
             YearCommissioned = 2002, Capacity = 10 / 3\<rparr>]"
proof -
  have h1: "\<not> is_triangle ''Hard Coal''" by (simp add: is_triangle_def)
  have h2: "example_lifetab ''Hard Coal'' = Some 3" by (simp add: example_lifetab_def)
  from scenario_life3 [of "''Hard Coal''" example_lifetab "''DE''" "''Steam''" "''PP''", OF h1 h2]
  show ?thesis by (simp add: example_partition_def)
qed

subsection \<open>The triangle distribution\<close>



subsection \<open>Conservation of the first observed capacity\<close>

lemma initial_distribution_conserves:
  assumes "dfs = (y_start, cap) # rest" "0 < life" "y_start - life + 1 < fst (last dfs)"
  shows "\<exists>m. init_matrix fuel dfs life = Inr m \<and> col_sum m y_start = cap \<and>
           (\<forall>y. y_start - life + 1 \<le> y \<and> y \<le> y_start \<longrightarrow>
              cells m y y_start = Some (initial_value fuel cap life (y_start - y)))"
proof -
  from init_matrix_result [OF assms, of fuel]
  obtain m where run: "init_matrix fuel dfs life = Inr m"
    and cl: "\<And>r c. cells m r c =
              (if y_start - life + 1 \<le> r \<and> r \<le> y_start \<and> r \<le> c \<and> c \<le> r + life - 1
                  \<and> c \<le> fst (last dfs) + life - 1
               then Some (initial_value fuel cap life (y_start - r)) else None)"
    by blast
  have "col_sum m y_start = cap" by (rule init_matrix_col_sum [OF assms run])
  moreover have "\<forall>y. y_start - life + 1 \<le> y \<and> y \<le> y_start \<longrightarrow>
              cells m y y_start = Some (initial_value fuel cap life (y_start - y))"
    using assms(2,3) by (simp add: cl)
  ultimately show ?thesis using run by blast
qed

lemma flat_values_sum: "0 < life \<Longrightarrow> of_int life * (cap / of_int life) = (cap::rat)"
  by simp

lemma sorted_index_nonempty:
  fixes dfs :: "(int \<times> rat) list"
  assumes "sorted_wrt (<) (map fst dfs)" "dfs = (y_start, c0) # rest" "0 < life"
  shows "y_start - life + 1 < fst (last dfs) \<longleftrightarrow> rest \<noteq> [] \<or> 2 \<le> life"
proof (cases rest)
  case Nil
  then show ?thesis using assms(2) by auto
next
  case (Cons a rest')
  then have "last dfs \<in> set rest" using assms(2) by simp
  then have "y_start < fst (last dfs)"
    using assms(1) unfolding assms(2) by (cases "last dfs") (auto simp del: last.simps)
  then show ?thesis using Cons assms(3) by simp
qed

text \<open>
  C4. The failing input: one observed year and a life of one year. The matrix is built
  with the rows \<^verbatim>\<open>range(y_start-life+1, y_end)\<close>, here none, and both policies raise
  IndexError at \<^verbatim>\<open>mat.index[0]\<close> before they assign anything.
\<close>

theorem initial_distribution_single_year_life1:
  "init_matrix ''Hard Coal'' [(2000, 100)] 1 = Inl IndexError \<and>
   init_matrix ''Wind'' [(2000, 100)] 1 = Inl IndexError \<and>
   setInitial_Flat (new_mat [2000..2000] [2000..1999]) [(2000, 100)] 1 = Inl IndexError \<and>
   setInitial_Triangle (new_mat [2000..2000] [2000..1999]) [(2000, 100)] 1 = Inl IndexError"
  by (simp add: init_matrix_def is_triangle_def setInitial_Flat_def setInitial_Triangle_def
      new_mat_def)

subsection \<open>Errors of one partition\<close>

lemma reduce_rows_error:
  "reduce_rows rs addition m life y_pres = Inl e \<Longrightarrow> e = KeyError (KInt y_pres)"
proof (induction rs arbitrary: addition m)
  case Nil
  then show ?case by simp
next
  case (Cons x rs)
  then show ?case by (auto split: if_splits option.splits)
qed

lemma setHistorical_year_error:
  "setHistorical_year m df life year = Inl e \<Longrightarrow> e = KeyError (KInt year)"
  unfolding setHistorical_year_def reduceVintages_def
  by (auto simp: Let_def dest: reduce_rows_error split: option.splits if_splits)

lemma setHistorical_while_error:
  "setHistorical_while m df life year ymax = Inl e \<Longrightarrow> \<exists>k. e = KeyError (KInt k)"
proof (induction m df life year ymax rule: setHistorical_while.induct)
  case (1 m df life year ymax)
  show ?case
  proof (cases "setHistorical_year m df life year")
    case (Inl e')
    then have "e = e'" using "1.prems"
      by (simp add: setHistorical_while.simps [of m] split: if_splits)
    with setHistorical_year_error [OF Inl] show ?thesis by blast
  next
    case (Inr m1)
    show ?thesis
    proof (cases "year \<le> ymax")
      case True
      then have "setHistorical_while m1 df life (year + 1) ymax = Inl e"
        using "1.prems" Inr by (simp add: setHistorical_while.simps [of m])
      from "1.IH" [OF True Inr this] show ?thesis .
    next
      case False
      then show ?thesis using "1.prems" by (simp add: setHistorical_while.simps [of m])
    qed
  qed
qed

lemma setHistorical_while_columns:
  assumes "setHistorical_while m df life year ymax = Inr m'"
  shows "columns m' = columns m"
proof -
  define I where "I = (\<lambda>(y::int) (m1::mat). columns m1 = columns m)"
  have "I (max year (ymax + 1)) m'"
  proof (rule setHistorical_while_rule [where I = I, OF assms])
    show "I year m" by (simp add: I_def)
  next
    fix y m1 m2
    assume "I y m1" "setHistorical_year m1 df life y = Inr m2"
    then show "I (y + 1) m2"
      using setHistorical_year_shape [of m1 df life y m2] by (simp add: I_def)
  qed
  then show ?thesis by (simp add: I_def)
qed

lemma cohort_matrix_outcome:
  assumes "lifetab (fueltype p) = Some n" "0 < n" "stats p = (y_start, c0) # rest"
    and "y_start - int n + 1 < fst (last (stats p))"
  shows "(\<exists>m. cohort_matrix lifetab p = Inr m \<and>
              columns m = [y_start - int n + 1..fst (last (stats p)) + int n - 1]) \<or>
         (\<exists>k. cohort_matrix lifetab p = Inl (KeyError (KInt k)))"
proof -
  have npos: "0 < int n" using assms(2) by simp
  from init_matrix_result [OF assms(3) npos assms(4), of "fueltype p"]
  obtain m0 where init: "init_matrix (fueltype p) (stats p) (int n) = Inr m0"
    and c0: "columns m0 = [y_start - int n + 1..fst (last (stats p)) + int n - 1]"
    by blast
  show ?thesis
  proof (cases "fst (last (stats p)) > y_start")
    case False
    then have "cohort_matrix lifetab p = Inr m0"
      using init unfolding cohort_matrix_def assms(1) by (simp add: assms(3))
    with c0 show ?thesis by blast
  next
    case True
    then have cm: "cohort_matrix lifetab p = setHistorical m0 (stats p) (int n)"
      using init unfolding cohort_matrix_def assms(1) by (simp add: assms(3))
    from True obtain y1 c1 rest' where rest: "rest = (y1, c1) # rest'"
      using assms(3) by (cases rest) auto
    have sh: "setHistorical m0 (stats p) (int n) =
              setHistorical_while m0 (stats p) (int n) y1 (index_max (stats p))"
      unfolding setHistorical_def assms(3) rest by simp
    show ?thesis
    proof (cases "setHistorical_while m0 (stats p) (int n) y1 (index_max (stats p))")
      case (Inl e)
      from setHistorical_while_error [OF Inl] Inl cm sh show ?thesis by auto
    next
      case (Inr m)
      from setHistorical_while_columns [OF Inr] c0 Inr cm sh show ?thesis by auto
    qed
  qed
qed

lemma extract_cohorts_outside:
  "base_year \<notin> set (columns m) \<Longrightarrow> extract_cohorts p base_year m = Inl (KeyError (KInt base_year))"
  by (simp add: extract_cohorts_def)

lemma extract_cohorts_inside:
  "base_year \<in> set (columns m) \<Longrightarrow> \<exists>add. extract_cohorts p base_year m = Inr add"
  by (simp add: extract_cohorts_def)

lemma base_year_outside_KeyError:
  assumes "lifetab (fueltype p) = Some n" "0 < n" "stats p = (y_start, c0) # rest"
    and "y_start - int n + 1 < fst (last (stats p))"
    and "base_year < y_start - int n + 1 \<or> fst (last (stats p)) + int n - 1 < base_year"
  shows "\<exists>k. partition_cohorts lifetab base_year p = Inl (KeyError (KInt k))"
  using cohort_matrix_outcome [of lifetab p n y_start c0 rest, OF assms(1-4)]
proof
  assume "\<exists>m. cohort_matrix lifetab p = Inr m \<and>
              columns m = [y_start - int n + 1..fst (last (stats p)) + int n - 1]"
  then obtain m where m: "cohort_matrix lifetab p = Inr m"
    and c: "columns m = [y_start - int n + 1..fst (last (stats p)) + int n - 1]" by blast
  have "base_year \<notin> set (columns m)" using assms(5) c by auto
  from extract_cohorts_outside [OF this] m show ?thesis
    by (simp add: partition_cohorts_def)
next
  assume "\<exists>k. cohort_matrix lifetab p = Inl (KeyError (KInt k))"
  then show ?thesis by (auto simp: partition_cohorts_def)
qed

subsection \<open>The loop over the partitions\<close>

lemma derive_partitions_first_error:
  assumes "\<forall>q\<in>set ps. \<exists>add. partition_cohorts lifetab base_year q = Inr add"
    and "partition_cohorts lifetab base_year p = Inl e"
  shows "derive_partitions lifetab base_year (ps @ p # qs) dfe = Inl e"
  using assms
proof (induction ps arbitrary: dfe)
  case Nil
  then show ?case by simp
next
  case (Cons q ps)
  then show ?case by auto
qed

lemma derive_partitions_some_error:
  assumes "p \<in> set ps" "partition_cohorts lifetab base_year p = Inl e"
  shows "\<exists>e'. derive_partitions lifetab base_year ps dfe = Inl e'"
  using assms
proof (induction ps arbitrary: dfe)
  case Nil
  then show ?case by simp
next
  case (Cons q ps)
  show ?case
  proof (cases "partition_cohorts lifetab base_year q")
    case (Inl e')
    then show ?thesis by simp
  next
    case (Inr add)
    with Cons.prems have "p \<in> set ps" by auto
    from Cons.IH [OF this Cons.prems(2)] Inr show ?thesis by simp
  qed
qed

lemma derive_error:
  "derive_partitions lifetab base_year df [] = Inl e \<Longrightarrow>
   derive_vintage_cohorts_from_statistics lifetab df base_year = Inl e"
  by (simp add: derive_vintage_cohorts_from_statistics_def)

lemma derive_single:
  "partition_cohorts lifetab base_year p = Inr add \<Longrightarrow>
   derive_vintage_cohorts_from_statistics lifetab [p] base_year
     = (if add = [] then Inl TypeError
        else Inr (filter (\<lambda>r. \<not> isclose0 (Capacity r)) add))"
  by (simp add: derive_vintage_cohorts_from_statistics_def split: list.splits)

subsection \<open>A fuel type without a lifetime\<close>

lemma missing_lifetime_partition:
  assumes "lifetab (fueltype p) = None"
  shows "partition_cohorts lifetab base_year p =
         (if stats p = [] then Inl IndexError else Inl (KeyError (KStr (fueltype p))))"
  using assms by (simp add: partition_cohorts_def cohort_matrix_def split: list.splits)

text \<open>
  C8, as amended. When the fuel type of a partition has no entry in the lifetime table,
  the call returns no result. When the partitions before it are processed without an
  error, the error is the KeyError of the table lookup, carrying the fuel type; it is
  raised before the matrix of that partition is built.
\<close>

theorem missing_lifetime_KeyError:
  assumes "lifetab (fueltype p) = None"
  shows "(\<exists>e. derive_vintage_cohorts_from_statistics lifetab (ps @ p # qs) base_year = Inl e) \<and>
         (stats p \<noteq> [] \<and> (\<forall>q\<in>set ps. \<exists>add. partition_cohorts lifetab base_year q = Inr add) \<longrightarrow>
            derive_vintage_cohorts_from_statistics lifetab (ps @ p # qs) base_year
              = Inl (KeyError (KStr (fueltype p))))"
proof -
  obtain e0 where e0: "partition_cohorts lifetab base_year p = Inl e0"
    using missing_lifetime_partition [where lifetab = lifetab and p = p, OF assms] by (cases "stats p = []") auto
  have "p \<in> set (ps @ p # qs)" by simp
  from derive_partitions_some_error [OF this e0]
  obtain e' where "derive_partitions lifetab base_year (ps @ p # qs) [] = Inl e'" by blast
  then have fails: "\<exists>e. derive_vintage_cohorts_from_statistics lifetab (ps @ p # qs) base_year = Inl e"
    using derive_error by blast
  have key: "stats p \<noteq> [] \<and> (\<forall>q\<in>set ps. \<exists>add. partition_cohorts lifetab base_year q = Inr add) \<longrightarrow>
            derive_vintage_cohorts_from_statistics lifetab (ps @ p # qs) base_year
              = Inl (KeyError (KStr (fueltype p)))"
  proof
    assume a: "stats p \<noteq> [] \<and> (\<forall>q\<in>set ps. \<exists>add. partition_cohorts lifetab base_year q = Inr add)"
    then have "partition_cohorts lifetab base_year p = Inl (KeyError (KStr (fueltype p)))"
      using missing_lifetime_partition [where lifetab = lifetab and p = p, OF assms] by simp
    from derive_partitions_first_error [OF _ this] a
    have "derive_partitions lifetab base_year (ps @ p # qs) [] = Inl (KeyError (KStr (fueltype p)))"
      by blast
    then show "derive_vintage_cohorts_from_statistics lifetab (ps @ p # qs) base_year
              = Inl (KeyError (KStr (fueltype p)))"
      by (rule derive_error)
  qed
  from fails key show ?thesis ..
qed

theorem missing_lifetime_KeyError_witness:
  "example_lifetab (fueltype (example_partition\<lparr>fueltype := ''Gas''\<rparr>)) = None \<and>
   derive_vintage_cohorts_from_statistics example_lifetab
     ([example_partition] @ example_partition\<lparr>fueltype := ''Gas''\<rparr> # []) 2002
     = Inl (KeyError (KStr ''Gas''))"
proof -
  have h: "example_lifetab (fueltype (example_partition\<lparr>fueltype := ''Gas''\<rparr>)) = None"
    by (simp add: example_lifetab_def)
  have "(case partition_cohorts example_lifetab 2002 example_partition of
           Inl e \<Rightarrow> False | Inr add \<Rightarrow> True)"
    by code_simp
  then have ok: "\<forall>q\<in>set [example_partition]. \<exists>add. partition_cohorts example_lifetab 2002 q = Inr add"
    by (auto split: sum.splits)
  have ne: "stats (example_partition\<lparr>fueltype := ''Gas''\<rparr>) \<noteq> []"
    by (simp add: example_partition_def)
  from missing_lifetime_KeyError [where lifetab = example_lifetab
      and p = "example_partition\<lparr>fueltype := ''Gas''\<rparr>" and ps = "[example_partition]"
      and qs = "[]" and base_year = 2002, OF h] ok ne h
  show ?thesis by simp
qed

theorem missing_lifetime_not_ConfigurationError:
  "derive_vintage_cohorts_from_statistics example_lifetab
     [example_partition\<lparr>fueltype := ''Gas''\<rparr>] 2002 = Inl (KeyError (KStr ''Gas'')) \<and>
   derive_vintage_cohorts_from_statistics example_lifetab
     [example_partition\<lparr>fueltype := ''Gas''\<rparr>] 2002 \<noteq> Inl (ConfigurationError ''Gas'')"
  by code_simp

subsection \<open>A base year outside the columns\<close>

lemma base_year_outside_call:
  assumes "lifetab (fueltype p) = Some n" "0 < n" "stats p = (y_start, c0) # rest"
    and "y_start - int n + 1 < fst (last (stats p))"
    and "base_year < y_start - int n + 1 \<or> fst (last (stats p)) + int n - 1 < base_year"
  shows "(\<exists>e. derive_vintage_cohorts_from_statistics lifetab (ps @ p # qs) base_year = Inl e) \<and>
         ((\<forall>q\<in>set ps. \<exists>add. partition_cohorts lifetab base_year q = Inr add) \<longrightarrow>
            (\<exists>k. derive_vintage_cohorts_from_statistics lifetab (ps @ p # qs) base_year
               = Inl (KeyError (KInt k))))"
proof -
  from base_year_outside_KeyError [where lifetab = lifetab and p = p, OF assms]
  obtain k where k: "partition_cohorts lifetab base_year p = Inl (KeyError (KInt k))" by blast
  have "p \<in> set (ps @ p # qs)" by simp
  from derive_partitions_some_error [OF this k] derive_error
  have 1: "\<exists>e. derive_vintage_cohorts_from_statistics lifetab (ps @ p # qs) base_year = Inl e"
    by blast
  have 2: "(\<forall>q\<in>set ps. \<exists>add. partition_cohorts lifetab base_year q = Inr add) \<longrightarrow>
            (\<exists>k. derive_vintage_cohorts_from_statistics lifetab (ps @ p # qs) base_year
               = Inl (KeyError (KInt k)))"
    using derive_partitions_first_error [OF _ k] derive_error by blast
  from 1 2 show ?thesis ..
qed

text \<open>
  C10. The failing input: one observed year, a life of one year and the default base
  year 2015, which is outside the columns \<open>[2000, 2000]\<close>. The call raises the
  IndexError of the initial distribution, not the KeyError of the extraction.
\<close>

theorem base_year_outside_single_year_life1:
  "derive_vintage_cohorts_from_statistics [''Hard Coal'' \<mapsto> 1] [single_year_partition] 2015
     = Inl IndexError \<and>
   derive_vintage_cohorts_from_statistics [''Hard Coal'' \<mapsto> 1] [single_year_partition] 2015
     \<noteq> Inl (KeyError (KInt 2015))"
  by code_simp

subsection \<open>Years without a statistic\<close>

lemma cohort_matrix_sorted:
  assumes "sorted_wrt (<) (map fst (stats p))" "lifetab (fueltype p) = Some n" "0 < n"
    and "stats p = (y_start, c0) # (y1, c1) # rest"
  shows "cohort_matrix lifetab p =
         matrix_upto (fueltype p) (stats p) (int n) (index_max (stats p))"
proof -
  have npos: "0 < int n" using assms(3) by simp
  have less: "y_start < fst (last (stats p))"
  proof -
    have "y_start < y1" using assms(1,4) by simp
    moreover have "y1 \<le> fst (last (stats p))"
      using sorted_years_last [OF assms(1), of "(y1, c1)"] assms(4) by simp
    ultimately show ?thesis by simp
  qed
  then have ne: "y_start - int n + 1 < fst (last (stats p))" using npos by simp
  from init_matrix_result [OF assms(4) npos ne, of "fueltype p"]
  obtain m0 where init: "init_matrix (fueltype p) (stats p) (int n) = Inr m0" by blast
  have "cohort_matrix lifetab p = setHistorical m0 (stats p) (int n)"
    using init less unfolding cohort_matrix_def assms(2) by (simp add: assms(4))
  also have "\<dots> = setHistorical_while m0 (stats p) (int n) y1 (index_max (stats p))"
    unfolding setHistorical_def assms(4) by simp
  also have "\<dots> = matrix_upto (fueltype p) (stats p) (int n) (index_max (stats p))"
    unfolding matrix_upto_def init by (simp add: assms(4))
  finally show ?thesis .
qed

lemma setHistorical_year_keeps_empty_row:
  assumes "setHistorical_year m df life year = Inr m'" "distinct (index m)" "year \<noteq> r"
    and "\<forall>c. cells m r c = None"
  shows "\<forall>c. cells m' r c = None"
  using assms(1)
proof (cases rule: setHistorical_year_cases)
  case gap
  then show ?thesis using assms(3,4) by (simp add: cells_loc_set)
next
  case (build cap)
  then show ?thesis using assms(3,4) by (simp add: cells_loc_set)
next
  case (retire cap)
  define m1 where "m1 = loc_set m year year (year + life - 1) 0"
  have d1: "distinct (index m1)" using assms(2) by (simp add: m1_def distinct_index_loc_set)
  have run: "reduceVintages (cap - col_sum m year) m1 life year = Inr m'"
    using retire(4) by (simp add: m1_def)
  have none: "\<And>c. cells m1 r c = None"
    using assms(3,4) by (simp add: m1_def cells_loc_set)
  from reduceVintages_row [OF run retire(3) d1, of r] none show ?thesis by auto
qed

lemma matrix_upto_empty_row:
  assumes "dfs = (y_start, c0) # (y1, c1) # rest" "0 < life" "y_start < y1"
    and "y_start < r" "r < y1" "matrix_upto fuel dfs life Y = Inr m"
    and "y_start - life + 1 < fst (last dfs)"
  shows "\<forall>c. cells m r c = None"
proof -
  from init_matrix_result [OF assms(1,2,7), of fuel]
  obtain m0 where init: "init_matrix fuel dfs life = Inr m0"
    and d0: "distinct (index m0)"
    and cl0: "\<And>r c. cells m0 r c =
              (if y_start - life + 1 \<le> r \<and> r \<le> y_start \<and> r \<le> c \<and> c \<le> r + life - 1
                  \<and> c \<le> fst (last dfs) + life - 1
               then Some (initial_value fuel c0 life (y_start - r)) else None)"
    by blast
  have run: "setHistorical_while m0 dfs life y1 Y = Inr m"
    using assms(6) unfolding matrix_upto_def init by (simp add: assms(1))
  define I where "I = (\<lambda>(y::int) (m::mat). distinct (index m) \<and> (\<forall>c. cells m r c = None))"
  have "I (max y1 (Y + 1)) m"
  proof (rule setHistorical_while_rule [where I = I, OF run])
    show "I y1 m0" using d0 assms(4) by (simp add: I_def cl0)
  next
    fix y m1 m2
    assume y: "y1 \<le> y" and i: "I y m1" and step: "setHistorical_year m1 dfs life y = Inr m2"
    from i have d: "distinct (index m1)" and e: "\<forall>c. cells m1 r c = None"
      by (simp_all add: I_def)
    have "y \<noteq> r" using y assms(5) by simp
    from setHistorical_year_keeps_empty_row [OF step d this e]
      setHistorical_year_shape [OF step] d
    show "I (y + 1) m2" by (simp add: I_def)
  qed
  then show ?thesis by (simp add: I_def)
qed

lemma extract_cohorts_nonempty:
  assumes "base_year \<in> set (columns m)" "extract_cohorts p base_year m = Inr add"
  shows "add \<noteq> [] \<longleftrightarrow> (\<exists>r\<in>set (index m). is_pos (cells m r base_year))"
proof -
  have "add = concat (map (\<lambda>y.
             case cells m y base_year of
               None \<Rightarrow> []
             | Some v \<Rightarrow>
                 if v > 0 then
                   [\<lparr>Country = country p, Technology = technology p, Fueltype = fueltype p,
                     SetName = pset p, YearCommissioned = y, Capacity = v\<rparr>]
                 else []) (index m))"
    using assms by (simp add: extract_cohorts_def)
  then show ?thesis
    by (auto simp: is_pos_def split: option.splits if_splits)
qed

text \<open>The outcome of the call on one partition whose matrix has the base year as a column.\<close>

lemma derive_single_outcome:
  assumes "cohort_matrix lifetab p = Inr m" "base_year \<in> set (columns m)"
  shows "if \<exists>r\<in>set (index m). is_pos (cells m r base_year)
         then \<exists>rows. derive_vintage_cohorts_from_statistics lifetab [p] base_year = Inr rows
         else derive_vintage_cohorts_from_statistics lifetab [p] base_year = Inl TypeError"
proof -
  from extract_cohorts_inside [OF assms(2), of p]
  obtain add where ex: "extract_cohorts p base_year m = Inr add" by blast
  have pc: "partition_cohorts lifetab base_year p = Inr add"
    using ex assms(1) by (simp add: partition_cohorts_def)
  show ?thesis
    using extract_cohorts_nonempty [OF assms(2) ex] derive_single [OF pc] by auto
qed

text \<open>
  C9, as amended. For a partition in year order with a positive lifetime, the initial
  distribution and \<^verbatim>\<open>setHistorical\<close> return the matrix of the partition, whatever
  years are missing; the call on that partition returns a result whenever the base year
  is a column of the matrix and some vintage holds a positive capacity there. A year
  without a statistic that lies after the second observed year is a zero-addition
  year: the loop reaches it, its step writes a row of zeros over \<open>[Y, Y + life - 1]\<close>
  and changes no other row, and the loop goes on from \<open>Y + 1\<close>. A year without a
  statistic between the first and the second observed year is not visited by the loop;
  its row stays unassigned.
\<close>

theorem gap_years_do_not_fail:
  assumes "sorted_wrt (<) (map fst (stats p))" and "lifetab (fueltype p) = Some n" and "0 < n"
    and "stats p = (y_start, c0) # (y1, c1) # rest"
  shows "\<exists>m0 mf. init_matrix (fueltype p) (stats p) (int n) = Inr m0 \<and>
           setHistorical m0 (stats p) (int n) = Inr mf \<and>
           cohort_matrix lifetab p = Inr mf \<and>
           columns mf = [y_start - int n + 1..fst (last (stats p)) + int n - 1] \<and>
           (base_year \<in> set (columns mf) \<and> (\<exists>r\<in>set (index mf). is_pos (cells mf r base_year)) \<longrightarrow>
              (\<exists>rows. derive_vintage_cohorts_from_statistics lifetab [p] base_year = Inr rows)) \<and>
           (\<forall>Y. y1 < Y \<and> Y < fst (last (stats p)) \<and> map_of (stats p) Y = None \<longrightarrow>
              (\<exists>m. setHistorical_while m0 (stats p) (int n) y1 (Y - 1) = Inr m \<and>
                 setHistorical_year m (stats p) (int n) Y = Inr (loc_set m Y Y (Y + int n - 1) 0) \<and>
                 setHistorical m0 (stats p) (int n)
                   = setHistorical_while (loc_set m Y Y (Y + int n - 1) 0) (stats p) (int n)
                       (Y + 1) (index_max (stats p)) \<and>
                 (\<forall>c. cells (loc_set m Y Y (Y + int n - 1) 0) Y c =
                    (if Y \<le> c \<and> c \<le> Y + int n - 1 then Some 0 else None)) \<and>
                 (\<forall>r c. r \<noteq> Y \<longrightarrow> cells (loc_set m Y Y (Y + int n - 1) 0) r c = cells m r c))) \<and>
           (\<forall>Y c. y_start < Y \<and> Y < y1 \<longrightarrow> cells mf Y c = None)"
proof -
  define dfs where "dfs = stats p"
  define life where "life = int n"
  define fuel where "fuel = fueltype p"
  have npos: "0 < life" using assms(3) by (simp add: life_def)
  have dfs: "dfs = (y_start, c0) # (y1, c1) # rest" using assms(4) by (simp add: dfs_def)
  have srt: "sorted_wrt (<) (map fst dfs)" using assms(1) by (simp add: dfs_def)
  have less: "y_start < y1" using srt dfs by simp
  have y1_le: "y1 \<le> fst (last dfs)"
    using sorted_years_last [OF srt, of "(y1, c1)"] dfs by simp
  have ne: "y_start - life + 1 < fst (last dfs)" using less y1_le npos by simp
  have imax: "index_max dfs = fst (last dfs)"
    by (rule sorted_years_index_max [OF srt]) (simp add: dfs)
  from cohort_matrix_setHistorical [where lifetab = lifetab and p = p, OF assms(1-4)]
  obtain m0 where init: "init_matrix fuel dfs life = Inr m0"
    and cm: "cohort_matrix lifetab p = setHistorical m0 dfs life"
    and sh: "setHistorical m0 dfs life = setHistorical_while m0 dfs life y1 (index_max dfs)"
    and upto: "\<And>Y. matrix_upto fuel dfs life Y = setHistorical_while m0 dfs life y1 Y"
    unfolding dfs_def life_def fuel_def by blast
  from matrix_upto_state [OF srt npos dfs, of "fst (last dfs)" fuel] y1_le
  obtain mf where mf: "matrix_upto fuel dfs life (fst (last dfs)) = Inr mf"
    and cf: "columns mf = [y_start - life + 1..fst (last dfs) + life - 1]"
    by auto
  have run: "setHistorical m0 dfs life = Inr mf"
    using mf upto sh imax by simp
  have cmf: "cohort_matrix lifetab p = Inr mf" using cm run by simp
  have 1: "base_year \<in> set (columns mf) \<and> (\<exists>r\<in>set (index mf). is_pos (cells mf r base_year)) \<longrightarrow>
              (\<exists>rows. derive_vintage_cohorts_from_statistics lifetab [p] base_year = Inr rows)"
  proof
    assume a: "base_year \<in> set (columns mf) \<and> (\<exists>r\<in>set (index mf). is_pos (cells mf r base_year))"
    then have col: "base_year \<in> set (columns mf)" by simp
    from extract_cohorts_inside [OF col, of p]
    obtain add where ex: "extract_cohorts p base_year mf = Inr add" by blast
    have "add \<noteq> []" using extract_cohorts_nonempty [OF col ex] a by simp
    moreover have "partition_cohorts lifetab base_year p = Inr add"
      using ex cmf by (simp add: partition_cohorts_def)
    ultimately show "\<exists>rows. derive_vintage_cohorts_from_statistics lifetab [p] base_year = Inr rows"
      using derive_single [of lifetab base_year p add] by simp
  qed
  have 2: "\<forall>Y. y1 < Y \<and> Y < fst (last dfs) \<and> map_of dfs Y = None \<longrightarrow>
              (\<exists>m. setHistorical_while m0 dfs life y1 (Y - 1) = Inr m \<and>
                 setHistorical_year m dfs life Y = Inr (loc_set m Y Y (Y + life - 1) 0) \<and>
                 setHistorical m0 dfs life
                   = setHistorical_while (loc_set m Y Y (Y + life - 1) 0) dfs life
                       (Y + 1) (index_max dfs) \<and>
                 (\<forall>c. cells (loc_set m Y Y (Y + life - 1) 0) Y c =
                    (if Y \<le> c \<and> c \<le> Y + life - 1 then Some 0 else None)) \<and>
                 (\<forall>r c. r \<noteq> Y \<longrightarrow> cells (loc_set m Y Y (Y + life - 1) 0) r c = cells m r c))"
  proof (intro allI impI)
    fix Y
    assume Y: "y1 < Y \<and> Y < fst (last dfs) \<and> map_of dfs Y = None"
    from matrix_upto_state [OF srt npos dfs, of "Y - 1" fuel] Y
    obtain m where before: "matrix_upto fuel dfs life (Y - 1) = Inr m"
      and cols: "columns m = [y_start - life + 1..fst (last dfs) + life - 1]"
      and fresh: "\<And>r c. Y \<le> r \<Longrightarrow> cells m r c = None"
      by auto
    have loop: "setHistorical_while m0 dfs life y1 (Y - 1) = Inr m"
      using before upto by simp
    have step: "setHistorical_year m dfs life Y = Inr (loc_set m Y Y (Y + life - 1) 0)"
      using Y by (simp add: setHistorical_year_def)
    have split: "setHistorical m0 dfs life
                   = setHistorical_while (loc_set m Y Y (Y + life - 1) 0) dfs life
                       (Y + 1) (index_max dfs)"
      unfolding sh
      using setHistorical_while_split [of y1 Y "index_max dfs" m0 dfs life] Y imax loop step
      by simp
    have row: "\<forall>c. cells (loc_set m Y Y (Y + life - 1) 0) Y c =
                  (if Y \<le> c \<and> c \<le> Y + life - 1 then Some 0 else None)"
      using Y less npos fresh [of Y] by (auto simp: cells_loc_set cols)
    have others: "\<forall>r c. r \<noteq> Y \<longrightarrow> cells (loc_set m Y Y (Y + life - 1) 0) r c = cells m r c"
      by (simp add: cells_loc_set)
    from loop step split row others
    show "\<exists>m. setHistorical_while m0 dfs life y1 (Y - 1) = Inr m \<and>
                 setHistorical_year m dfs life Y = Inr (loc_set m Y Y (Y + life - 1) 0) \<and>
                 setHistorical m0 dfs life
                   = setHistorical_while (loc_set m Y Y (Y + life - 1) 0) dfs life
                       (Y + 1) (index_max dfs) \<and>
                 (\<forall>c. cells (loc_set m Y Y (Y + life - 1) 0) Y c =
                    (if Y \<le> c \<and> c \<le> Y + life - 1 then Some 0 else None)) \<and>
                 (\<forall>r c. r \<noteq> Y \<longrightarrow> cells (loc_set m Y Y (Y + life - 1) 0) r c = cells m r c)"
      by blast
  qed
  have 3: "\<forall>Y c. y_start < Y \<and> Y < y1 \<longrightarrow> cells mf Y c = None"
  proof (intro allI impI)
    fix Y c
    assume Y: "y_start < Y \<and> Y < y1"
    then have a: "y_start < Y" and b: "Y < y1" by simp_all
    from matrix_upto_empty_row [OF dfs npos less a b mf ne]
    show "cells mf Y c = None" by simp
  qed
  from init run cmf cf 1 2 3 show ?thesis
    unfolding dfs_def life_def fuel_def by blast
qed

theorem gap_years_do_not_fail_witness:
  "(\<exists>rows. derive_vintage_cohorts_from_statistics example_lifetab [gap_partition] 2005 = Inr rows) \<and>
   (\<exists>m0 m. init_matrix (fueltype gap_partition) (stats gap_partition) (int 3) = Inr m0 \<and>
        setHistorical_while m0 (stats gap_partition) (int 3) 2002 (2004 - 1) = Inr m \<and>
        setHistorical_year m (stats gap_partition) (int 3) 2004
          = Inr (loc_set m 2004 2004 (2004 + int 3 - 1) 0)) \<and>
   (\<exists>mf. cohort_matrix example_lifetab gap_partition = Inr mf \<and> is_pos (cells mf 2005 2005) \<and>
        cells mf 2001 2001 = None)"
proof -
  have h: "sorted_wrt (<) (map fst (stats gap_partition))"
    "example_lifetab (fueltype gap_partition) = Some 3" "0 < (3::nat)"
    "stats gap_partition = (2000, 100) # (2002, 120) # [(2003, 90), (2005, 130)]"
    by (simp_all add: gap_partition_def example_lifetab_def)
  have g: "2002 < (2004::int) \<and> 2004 < fst (last (stats gap_partition)) \<and>
           map_of (stats gap_partition) 2004 = None"
    by (simp add: gap_partition_def)
  have e: "(case cohort_matrix example_lifetab gap_partition of
              Inl e \<Rightarrow> False
            | Inr m \<Rightarrow> 2005 \<in> set (columns m) \<and> 2005 \<in> set (index m) \<and> is_pos (cells m 2005 2005))"
    by code_simp
  from gap_years_do_not_fail [where lifetab = example_lifetab and p = gap_partition
      and base_year = 2005, OF h]
  obtain m0 mf where m0: "init_matrix (fueltype gap_partition) (stats gap_partition) (int 3) = Inr m0"
    and cmf: "cohort_matrix example_lifetab gap_partition = Inr mf"
    and call: "2005 \<in> set (columns mf) \<and> (\<exists>r\<in>set (index mf). is_pos (cells mf r 2005)) \<longrightarrow>
              (\<exists>rows. derive_vintage_cohorts_from_statistics example_lifetab [gap_partition] 2005
                 = Inr rows)"
    and gaps: "\<forall>Y. 2002 < Y \<and> Y < fst (last (stats gap_partition)) \<and>
                  map_of (stats gap_partition) Y = None \<longrightarrow>
              (\<exists>m. setHistorical_while m0 (stats gap_partition) (int 3) 2002 (Y - 1) = Inr m \<and>
                 setHistorical_year m (stats gap_partition) (int 3) Y
                   = Inr (loc_set m Y Y (Y + int 3 - 1) 0) \<and>
                 setHistorical m0 (stats gap_partition) (int 3)
                   = setHistorical_while (loc_set m Y Y (Y + int 3 - 1) 0) (stats gap_partition) (int 3)
                       (Y + 1) (index_max (stats gap_partition)) \<and>
                 (\<forall>c. cells (loc_set m Y Y (Y + int 3 - 1) 0) Y c =
                    (if Y \<le> c \<and> c \<le> Y + int 3 - 1 then Some 0 else None)) \<and>
                 (\<forall>r c. r \<noteq> Y \<longrightarrow> cells (loc_set m Y Y (Y + int 3 - 1) 0) r c = cells m r c))"
    and early: "\<forall>Y c. 2000 < Y \<and> Y < 2002 \<longrightarrow> cells mf Y c = None"
    by blast
  from e have e': "2005 \<in> set (columns mf) \<and> 2005 \<in> set (index mf) \<and> is_pos (cells mf 2005 2005)"
    unfolding cmf sum.case .
  then have "2005 \<in> set (columns mf) \<and> (\<exists>r\<in>set (index mf). is_pos (cells mf r 2005))" by blast
  with call have a: "\<exists>rows. derive_vintage_cohorts_from_statistics example_lifetab [gap_partition] 2005
                    = Inr rows" by blast
  from gaps [THEN spec, of 2004] g
  obtain m where "setHistorical_while m0 (stats gap_partition) (int 3) 2002 (2004 - 1) = Inr m"
    and "setHistorical_year m (stats gap_partition) (int 3) 2004
           = Inr (loc_set m 2004 2004 (2004 + int 3 - 1) 0)"
    by blast
  with m0 have b: "\<exists>m0 m. init_matrix (fueltype gap_partition) (stats gap_partition) (int 3) = Inr m0 \<and>
        setHistorical_while m0 (stats gap_partition) (int 3) 2002 (2004 - 1) = Inr m \<and>
        setHistorical_year m (stats gap_partition) (int 3) 2004
          = Inr (loc_set m 2004 2004 (2004 + int 3 - 1) 0)"
    by blast
  from early have "cells mf 2001 2001 = None" by simp
  with cmf e' have c: "\<exists>mf. cohort_matrix example_lifetab gap_partition = Inr mf \<and>
        is_pos (cells mf 2005 2005) \<and> cells mf 2001 2001 = None"
    by blast
  from a b c show ?thesis by (intro conjI)
qed

text \<open>
  The partition observed in 2000 and 2005 with a life of three years, extracted at 2003.
  The loop starts at 2005, so no year without a statistic gets a row of zeros, and no
  vintage holds a capacity at 2003: the result table has no row and the call ends in the
  \<^verbatim>\<open>TypeError\<close> of \<^verbatim>\<open>np.isclose\<close>.
\<close>

theorem gap_years_counterexample:
  "map_of (stats sparse_partition) 2003 = None \<and>
   derive_vintage_cohorts_from_statistics example_lifetab [sparse_partition] 2003 = Inl TypeError \<and>
   (case cohort_matrix example_lifetab sparse_partition of
      Inl e \<Rightarrow> False
    | Inr m \<Rightarrow> 2003 \<in> set (columns m) \<and> 2003 \<in> set (index m) \<and>
               cells m 2003 2003 = None \<and> cells m 2003 2004 = None \<and> cells m 2003 2005 = None)"
  by code_simp

subsection \<open>The allocator meets every observed capacity\<close>

lemma init_matrix_index_sorted:
  assumes "dfs = (y_start, c0) # rest" "0 < life" "y_start < fst (last dfs)"
    and "init_matrix fuel dfs life = Inr m"
  shows "index m = [y_start - life + 1..fst (last dfs) - 1]"
proof -
  have ne: "y_start - life + 1 < fst (last dfs)" using assms(2,3) by simp
  define m0 where "m0 = new_mat [y_start - life + 1..fst (last dfs) + life - 1]
                    [y_start - life + 1..fst (last dfs) - 1]"
  define dic where "dic = (if is_triangle fuel then triangle_dic y_start c0 life
            else (\<lambda>y. Some (c0 / of_int life)))"
  have run: "setInitial_rows [y_start - life + 1..y_start] m0 life dic = Inr m"
    using init_matrix_unfold [OF assms(1,2) ne, of fuel] assms(4) by (simp add: m0_def dic_def)
  have keep: "setInitial_rows ys m1 life dic = Inr m2 \<Longrightarrow> set ys \<subseteq> set (index m1) \<Longrightarrow>
              index m2 = index m1" for ys m1 m2
  proof (induction ys arbitrary: m1)
    case Nil
    then show ?case by simp
  next
    case (Cons y ys)
    from Cons.prems(1) obtain v where
      r: "setInitial_rows ys (loc_set m1 y y (min (y + life - 1) (last (columns m1))) v) life dic = Inr m2"
      by (auto split: if_splits option.splits)
    have i: "index (loc_set m1 y y (min (y + life - 1) (last (columns m1))) v) = index m1"
      using Cons.prems(2) by (simp add: index_loc_set)
    from Cons.IH [OF r] Cons.prems(2) i show ?case by simp
  qed
  have "set [y_start - life + 1..y_start] \<subseteq> set (index m0)"
    using assms(3) by (auto simp: m0_def new_mat_def)
  from keep [OF run this] show ?thesis by (simp add: m0_def new_mat_def)
qed

lemma matrix_upto_index_sorted:
  assumes "sorted_wrt (<) (map fst dfs)" "0 < life"
    and "dfs = (y_start, c0) # (y1, c1) # rest"
    and "matrix_upto fuel dfs life Y = Inr m"
  shows "sorted_wrt (<) (index m)"
proof -
  define y_end where "y_end = fst (last dfs)"
  define lo where "lo = y_start - life + 1"
  have less: "y_start < y1" using assms(1,3) by simp
  have y1_le: "y1 \<le> y_end"
    using sorted_years_last [OF assms(1), of "(y1, c1)"] assms(3) by (simp add: y_end_def)
  from assms(4) obtain m0 where init: "init_matrix fuel dfs life = Inr m0"
    by (auto simp: matrix_upto_def split: sum.splits)
  have i0: "index m0 = [lo..y_end - 1]"
    unfolding lo_def y_end_def
    by (rule init_matrix_index_sorted [OF assms(3,2) _ init]) (use less y1_le in \<open>simp add: y_end_def\<close>)
  have run: "setHistorical_while m0 dfs life y1 Y = Inr m"
    using assms(4) unfolding matrix_upto_def init by (simp add: assms(3))
  define I where "I = (\<lambda>(y::int) (m::mat). sorted_wrt (<) (index m) \<and>
       {lo..y_end - 1} \<subseteq> set (index m) \<and> (\<forall>r\<in>set (index m). r < max y y_end))"
  have "I (max y1 (Y + 1)) m"
  proof (rule setHistorical_while_rule [where I = I, OF run])
    show "I y1 m0" using y1_le by (auto simp: I_def i0)
  next
    fix y m1 m2
    assume y: "y1 \<le> y" and i: "I y m1" and step: "setHistorical_year m1 dfs life y = Inr m2"
    from i have s: "sorted_wrt (<) (index m1)" and sub: "{lo..y_end - 1} \<subseteq> set (index m1)"
      and b: "\<forall>r\<in>set (index m1). r < max y y_end"
      by (simp_all add: I_def)
    have idx: "index m2 = (if y \<in> set (index m1) then index m1 else index m1 @ [y])"
      using step
    proof (cases rule: setHistorical_year_cases)
      case gap
      then show ?thesis by (simp add: index_loc_set)
    next
      case (build cap)
      then show ?thesis by (simp add: index_loc_set)
    next
      case (retire cap)
      from reduceVintages_shape [OF retire(4)] show ?thesis by (simp add: index_loc_set)
    qed
    show "I (y + 1) m2"
    proof (cases "y \<in> set (index m1)")
      case True
      then show ?thesis using idx s sub b by (auto simp: I_def)
    next
      case False
      have "lo \<le> y" using y less assms(2) by (simp add: lo_def)
      with False sub have ge: "y_end \<le> y" by (cases "y \<le> y_end - 1") auto
      then have "\<forall>r\<in>set (index m1). r < y" using b by auto
      then show ?thesis using idx False s sub ge
        by (auto simp: I_def sorted_wrt_append)
    qed
  qed
  then show ?thesis by (simp add: I_def)
qed

lemma allocator_meets_observed_capacity:
  assumes "sorted_wrt (<) (map fst dfs)" and "0 < life"
    and "dfs = (y_start, c0) # rest" and "(Y, cap) \<in> set rest"
    and "\<forall>(y, c)\<in>set dfs. 0 \<le> c"
  shows "\<exists>m. matrix_upto fuel dfs life Y = Inr m \<and> col_sum m Y = cap"
proof -
  obtain y1 c1 rest' where rest: "rest = (y1, c1) # rest'"
    using assms(4) by (cases rest) auto
  have dfs: "dfs = (y_start, c0) # (y1, c1) # rest'"
    using assms(3) rest by simp
  have in_dfs: "(Y, cap) \<in> set dfs" using assms(3,4) by simp
  have cap: "0 \<le> cap" and c0: "0 \<le> c0" using assms(5) in_dfs assms(3) by auto
  have look: "map_of dfs Y = Some cap"
    by (rule sorted_years_lookup [OF assms(1) in_dfs])
  have y1_le: "y1 \<le> Y"
  proof (cases "Y = y1")
    case False
    then have "(Y, cap) \<in> set rest'" using assms(4) rest by auto
    then show ?thesis using assms(1) unfolding dfs by force
  qed simp
  have bounds: "y_start \<le> Y \<and> Y \<le> fst (last dfs)"
    by (rule observed_year_bounds [OF assms(1,3) look])
  from matrix_upto_state [OF assms(1,2) dfs, of "Y - 1" fuel] y1_le
  obtain m where before: "matrix_upto fuel dfs life (Y - 1) = Inr m"
    and cols: "columns m = [y_start - life + 1..fst (last dfs) + life - 1]"
    and dist: "distinct (index m)"
    and fresh: "\<And>r c. Y \<le> r \<Longrightarrow> cells m r c = None"
    by auto
  have col: "Y \<in> set (columns m)"
    using bounds assms(2) by (simp add: cols)
  have nn: "nonneg m" by (rule matrix_upto_nonneg [OF before assms(3) c0 assms(2)])
  have ok: "span_ok life m" by (rule matrix_upto_span [OF before assms(2)])
  have unf: "matrix_upto fuel dfs life Y = setHistorical_year m dfs life Y"
    using matrix_upto_step [OF dfs y1_le, of fuel life] before by simp
  have written: "\<And>v. cells (loc_set m Y Y (Y + life - 1) v) Y Y = Some v"
    using col assms(2) by (simp add: cells_loc_set)
  have sum1: "\<And>v. col_sum (loc_set m Y Y (Y + life - 1) v) Y = col_sum m Y + v"
    using col_sum_loc_set_fresh [OF dist fresh [of Y Y], of Y "Y + life - 1" _ ] written
    by (simp add: cell_val_def)
  show ?thesis
  proof (cases "0 \<le> cap - col_sum m Y")
    case True
    then have "setHistorical_year m dfs life Y
                 = Inr (loc_set m Y Y (Y + life - 1) (cap - col_sum m Y))"
      by (simp add: setHistorical_year_def look col Let_def)
    with unf sum1 [of "cap - col_sum m Y"] show ?thesis by simp
  next
    case False
    define m1 where "m1 = loc_set m Y Y (Y + life - 1) 0"
    define addition where "addition = cap - col_sum m Y"
    have neg: "addition < 0" using False by (simp add: addition_def)
    have step: "setHistorical_year m dfs life Y = reduceVintages addition m1 life Y"
      using False by (simp add: setHistorical_year_def look col Let_def m1_def addition_def)
    have col1: "Y \<in> set (columns m1)" using col by (simp add: m1_def columns_loc_set)
    from reduceVintages_succeeds [OF col1]
    obtain m' where run: "reduceVintages addition m1 life Y = Inr m'" by blast
    have d1: "distinct (index m1)" using dist by (simp add: m1_def distinct_index_loc_set)
    have nn1: "nonneg m1" unfolding m1_def by (rule nonneg_loc_set [OF nn]) simp
    have ok1: "span_ok life m1"
      unfolding m1_def by (rule span_ok_loc_set_span [OF ok cols]) auto
    have s1: "col_sum m1 Y = col_sum m Y" using sum1 [of 0] by (simp add: m1_def)
    have colnn: "\<forall>r\<in>set (index m1). 0 \<le> cell_val (cells m1 r Y)"
      using nn1 col1 unfolding nonneg_def by (auto simp: cell_val_def split: option.splits)
    have span: "\<forall>r\<in>set (index m1). is_pos (cells m1 r Y) \<longrightarrow> Y \<le> r + life - 1"
    proof (intro ballI impI)
      fix r
      assume r: "r \<in> set (index m1)" and p: "is_pos (cells m1 r Y)"
      then have "nonzero m1 r Y"
        by (auto simp: is_pos_def nonzero_def split: option.splits)
      from span_ok_bounds [OF ok1 r col1 this] show "Y \<le> r + life - 1" by simp
    qed
    have "col_sum m' Y = col_sum m1 Y - min (- addition) (pos_sum (index m1) m1 Y)"
      by (rule reduce_rows_col_sum [OF run [unfolded reduceVintages_def] neg col1 d1 d1 _ span])
        simp
    also have "pos_sum (index m1) m1 Y = col_sum m1 Y"
      by (rule col_sum_pos_sum [OF colnn, symmetric])
    also have "min (- addition) (col_sum m1 Y) = - addition"
      using cap by (simp add: addition_def s1)
    finally have "col_sum m' Y = cap" by (simp add: addition_def s1)
    with unf step run show ?thesis by simp
  qed
qed

end
